theory Spec2Isabelle
  imports Main
begin

section \<open>Strings and the platform functions used by \<open>transformToTree\<close>\<close>

text \<open>
  The program is \<^verbatim>\<open>src/index.ts\<close>. A JavaScript string is modelled by its UTF-8 bytes, as a
  \<open>string\<close>; every string operation the program uses (\<^verbatim>\<open>endsWith\<close>, \<^verbatim>\<open>split\<close>, equality,
  \<^verbatim>\<open>encodeURI\<close>, \<^verbatim>\<open>decodeURIComponent\<close>) acts on well-formed text the same way in both forms.
  A string holding a lone surrogate has no such form: \<^verbatim>\<open>encodeURI\<close> throws on it, and it is not
  an input of this model.

  The exceptions the program can raise are values of \<open>js_error\<close>: the \<^verbatim>\<open>TypeError\<close> of
  \<^verbatim>\<open>new URL\<close> on a string that is no URL, the \<^verbatim>\<open>URIError\<close> of \<^verbatim>\<open>decodeURIComponent\<close>, and the
  \<^verbatim>\<open>TypeError\<close> of calling \<^verbatim>\<open>.find\<close> on a value that has no such method.
\<close>

datatype js_error = InvalidURL | URIError | NotAFunction

definition isDigit :: "char \<Rightarrow> bool" where
  "isDigit c = (48 \<le> (of_char c :: nat) \<and> (of_char c :: nat) \<le> 57)"

definition isUpper :: "char \<Rightarrow> bool" where
  "isUpper c = (65 \<le> (of_char c :: nat) \<and> (of_char c :: nat) \<le> 90)"

definition isLower :: "char \<Rightarrow> bool" where
  "isLower c = (97 \<le> (of_char c :: nat) \<and> (of_char c :: nat) \<le> 122)"

definition isAlpha :: "char \<Rightarrow> bool" where
  "isAlpha c = (isUpper c \<or> isLower c)"

definition toLower :: "char \<Rightarrow> char" where
  "toLower c = (if isUpper c then char_of ((of_char c :: nat) + 32) else c)"

definition hexDigit :: "nat \<Rightarrow> char" where
  "hexDigit n = (if n < 10 then char_of (48 + n) else char_of (55 + n))"

definition hexVal :: "char \<Rightarrow> nat option" where
  "hexVal c =
     (if isDigit c then Some ((of_char c :: nat) - 48)
      else if 65 \<le> (of_char c :: nat) \<and> (of_char c :: nat) \<le> 70 then Some ((of_char c :: nat) - 55)
      else if 97 \<le> (of_char c :: nat) \<and> (of_char c :: nat) \<le> 102 then Some ((of_char c :: nat) - 87)
      else None)"

text \<open>\<^verbatim>\<open>s.endsWith(t)\<close>.\<close>

definition endsWith :: "string \<Rightarrow> string \<Rightarrow> bool" where
  "endsWith s t = (length t \<le> length s \<and> drop (length s - length t) s = t)"

text \<open>\<^verbatim>\<open>s.split(c)\<close> for a one-character separator: the empty string gives one empty part.\<close>

fun split :: "char \<Rightarrow> string \<Rightarrow> string list" where
  "split c [] = [[]]"
| "split c (x # xs) =
     (if x = c then [] # split c xs
      else (case split c xs of [] \<Rightarrow> [[x]] | y # ys \<Rightarrow> (x # y) # ys))"

text \<open>
  \<^verbatim>\<open>encodeURI\<close>: letters, digits and the characters \<^verbatim>\<open>; , / ? : @ & = + $ - _ . ! ~ * ' ( ) #\<close>
  are kept; every other byte of the UTF-8 form, the percent sign among them, becomes \<^verbatim>\<open>%XX\<close>
  with upper-case hexadecimal digits.
\<close>

definition uriKept :: "char \<Rightarrow> bool" where
  "uriKept c = (isAlpha c \<or> isDigit c \<or> c \<in> set '';,/?:@&=+$-_.!~*()#'' \<or> (of_char c :: nat) = 39)"

definition encodeURI :: "string \<Rightarrow> string" where
  "encodeURI s =
     concat (map (\<lambda>c. if uriKept c then [c]
                       else [CHR ''%'', hexDigit ((of_char c :: nat) div 16),
                             hexDigit ((of_char c :: nat) mod 16)]) s)"

text \<open>
  \<^verbatim>\<open>decodeURIComponent\<close>: every \<^verbatim>\<open>%XX\<close> becomes the byte \<open>XX\<close>; a percent sign that is not followed
  by two hexadecimal digits is a \<^verbatim>\<open>URIError\<close>. (The function also rejects decoded bytes that are
  not UTF-8; the bytes decoded here are those \<open>encodeURI\<close> wrote, which are.)
\<close>

fun decodeURIComponent :: "string \<Rightarrow> js_error + string" where
  "decodeURIComponent [] = Inr []"
| "decodeURIComponent (c # cs) =
     (if c = CHR ''%'' then
        (case cs of
           h1 # h2 # rest \<Rightarrow>
             (case (hexVal h1, hexVal h2) of
                (Some a, Some b) \<Rightarrow>
                  (case decodeURIComponent rest of
                     Inl e \<Rightarrow> Inl e
                   | Inr r \<Rightarrow> Inr (char_of (16 * a + b) # r))
              | _ \<Rightarrow> Inl URIError)
         | _ \<Rightarrow> Inl URIError)
      else (case decodeURIComponent cs of Inl e \<Rightarrow> Inl e | Inr r \<Rightarrow> Inr (c # r)))"

subsection \<open>The \<^verbatim>\<open>URL\<close> constructor\<close>

text \<open>
  \<^verbatim>\<open>new URL(s)\<close> is the platform's URL parser; the program reads \<^verbatim>\<open>hostname\<close> and \<^verbatim>\<open>pathname\<close> of
  its result and calls it on results of \<open>encodeURI\<close> only, so on strings without spaces,
  control characters or backslashes. \<open>parseURL\<close> follows the parser of the URL standard on
  such strings for the schemes \<^verbatim>\<open>http\<close>, \<^verbatim>\<open>https\<close>, \<^verbatim>\<open>ws\<close>, \<^verbatim>\<open>wss\<close> and \<^verbatim>\<open>ftp\<close>:
  \<^item> the scheme is a letter followed by letters, digits, \<^verbatim>\<open>+\<close>, \<^verbatim>\<open>-\<close>, \<^verbatim>\<open>.\<close> up to the first colon, in
    lower case; a string without one is rejected;
  \<^item> any number of slashes after the colon is skipped; the authority runs to the next \<^verbatim>\<open>/\<close>,
    \<^verbatim>\<open>?\<close> or \<^verbatim>\<open>#\<close>; what precedes its last \<^verbatim>\<open>@\<close> is user information; the host runs to the first
    colon, and what follows is the port: digits only, at most 65535;
  \<^item> an empty host is rejected, and so is a host with a forbidden character; the host name is
    put in lower case;
  \<^item> the path runs to the next \<^verbatim>\<open>?\<close> or \<^verbatim>\<open>#\<close>; its segments \<^verbatim>\<open>.\<close> and \<^verbatim>\<open>..\<close> (also written with
    \<^verbatim>\<open>%2e\<close>) are resolved; \<^verbatim>\<open>pathname\<close> is every remaining segment preceded by a slash.

  Outside the model, where \<open>parseURL\<close> answers \<open>None\<close> although the platform may accept the
  string: the \<^verbatim>\<open>file\<close> scheme and all other schemes, hosts with a percent sign or a non-ASCII
  byte or a label starting with \<^verbatim>\<open>xn--\<close> (internationalised names), bracketed IPv6 hosts, and
  hosts whose last label is a number other than the four-part decimal form of an IPv4 address.
  No theorem below rests on a \<open>None\<close> of that kind.
\<close>

record url =
  hostname :: string
  pathname :: string

definition isSchemeChar :: "char \<Rightarrow> bool" where
  "isSchemeChar c = (isAlpha c \<or> isDigit c \<or> c \<in> set ''+-.'')"

definition splitScheme :: "string \<Rightarrow> (string \<times> string) option" where
  "splitScheme s =
     (case s of
        [] \<Rightarrow> None
      | c # cs \<Rightarrow>
          if \<not> isAlpha c then None
          else (case dropWhile isSchemeChar cs of
                  [] \<Rightarrow> None
                | d # rest \<Rightarrow>
                    if d = CHR '':'' then Some (map toLower (c # takeWhile isSchemeChar cs), rest)
                    else None))"

definition specialSchemes :: "string list" where
  "specialSchemes = [''http'', ''https'', ''ws'', ''wss'', ''ftp'']"

definition forbiddenHostChar :: "char \<Rightarrow> bool" where
  "forbiddenHostChar c =
     ((of_char c :: nat) \<le> 32 \<or> 127 \<le> (of_char c :: nat) \<or> c \<in> set ''#/:<>?@[]^|%''
      \<or> (of_char c :: nat) = 92)"

fun decimalValue :: "string \<Rightarrow> nat" where
  "decimalValue s = foldl (\<lambda>n c. 10 * n + ((of_char c :: nat) - 48)) 0 s"

definition isNumber :: "string \<Rightarrow> bool" where
  "isNumber s = (s \<noteq> [] \<and> list_all isDigit s)"

definition isHexNumber :: "string \<Rightarrow> bool" where
  "isHexNumber s = (take 2 s = ''0x'' \<and> list_all (\<lambda>c. hexVal c \<noteq> None) (drop 2 s))"

definition lastLabelIsNumber :: "string list \<Rightarrow> bool" where
  "lastLabelIsNumber labels = (labels \<noteq> [] \<and> (isNumber (last labels) \<or> isHexNumber (last labels)))"

definition endsInNumberLabels :: "string list \<Rightarrow> bool" where
  "endsInNumberLabels labels =
     (if last labels = [] then lastLabelIsNumber (butlast labels) else lastLabelIsNumber labels)"

definition endsInNumber :: "string \<Rightarrow> bool" where
  "endsInNumber h = endsInNumberLabels (split (CHR ''.'') h)"

definition isIPv4Part :: "string \<Rightarrow> bool" where
  "isIPv4Part s = (isNumber s \<and> (s = ''0'' \<or> hd s \<noteq> CHR ''0'') \<and> decimalValue s \<le> 255)"

definition isDecimalIPv4Labels :: "string list \<Rightarrow> bool" where
  "isDecimalIPv4Labels labels = (length labels = 4 \<and> list_all isIPv4Part labels)"

definition isDecimalIPv4 :: "string \<Rightarrow> bool" where
  "isDecimalIPv4 h = isDecimalIPv4Labels (split (CHR ''.'') h)"

definition domainOrIPv4 :: "string \<Rightarrow> string option" where
  "domainOrIPv4 l =
     (if list_ex (\<lambda>label. take 4 label = ''xn--'') (split (CHR ''.'') l) then None
      else if endsInNumber l then (if isDecimalIPv4 l then Some l else None)
      else Some l)"

definition parseHost :: "string \<Rightarrow> string option" where
  "parseHost h =
     (if h = [] \<or> list_ex forbiddenHostChar h then None
      else domainOrIPv4 (map toLower h))"

definition isSingleDot :: "string \<Rightarrow> bool" where
  "isSingleDot s = (map toLower s \<in> set [''.'', ''%2e''])"

definition isDoubleDot :: "string \<Rightarrow> bool" where
  "isDoubleDot s = (map toLower s \<in> set [''..'', ''.%2e'', ''%2e.'', ''%2e%2e''])"

fun pathSegments :: "string list \<Rightarrow> string list \<Rightarrow> string list" where
  "pathSegments acc [] = acc"
| "pathSegments acc (s # ss) =
     (if isDoubleDot s then pathSegments (butlast acc @ (if ss = [] then [[]] else [])) ss
      else if isSingleDot s then pathSegments (acc @ (if ss = [] then [[]] else [])) ss
      else pathSegments (acc @ [s]) ss)"

definition dropLeadingSlash :: "string \<Rightarrow> string" where
  "dropLeadingSlash p = (case p of [] \<Rightarrow> [] | c # cs \<Rightarrow> if c = CHR ''/'' then cs else c # cs)"

definition parsePath :: "string \<Rightarrow> string" where
  "parsePath rest =
     concat (map (\<lambda>s. CHR ''/'' # s)
       (pathSegments []
          (split (CHR ''/'')
             (dropLeadingSlash (takeWhile (\<lambda>c. c \<noteq> CHR ''?'' \<and> c \<noteq> CHR ''#'') rest)))))"

definition afterLastAt :: "string \<Rightarrow> string" where
  "afterLastAt a = rev (takeWhile (\<lambda>c. c \<noteq> CHR ''@'') (rev a))"

definition inAuthority :: "char \<Rightarrow> bool" where
  "inAuthority c = (c \<noteq> CHR ''/'' \<and> c \<noteq> CHR ''?'' \<and> c \<noteq> CHR ''#'')"

definition portOk :: "string \<Rightarrow> bool" where
  "portOk port = (list_all isDigit port \<and> decimalValue port \<le> 65535)"

definition parseHostPort :: "string \<Rightarrow> string \<Rightarrow> url option" where
  "parseHostPort hostport rest =
     (if \<not> portOk (drop 1 (dropWhile (\<lambda>c. c \<noteq> CHR '':'') hostport)) then None
      else (case parseHost (takeWhile (\<lambda>c. c \<noteq> CHR '':'') hostport) of
              None \<Rightarrow> None
            | Some h \<Rightarrow> Some \<lparr>hostname = h, pathname = parsePath rest\<rparr>))"

definition parseAuthority :: "string \<Rightarrow> url option" where
  "parseAuthority s =
     parseHostPort (afterLastAt (takeWhile inAuthority s)) (dropWhile inAuthority s)"

definition parseURL :: "string \<Rightarrow> url option" where
  "parseURL s =
     (case splitScheme s of
        None \<Rightarrow> None
      | Some (scheme, rest) \<Rightarrow>
          if scheme \<in> set specialSchemes
          then parseAuthority (dropWhile (\<lambda>c. c = CHR ''/'') rest)
          else None)"

section \<open>The tree\<close>

text \<open>
  \<^verbatim>\<open>interface Tree { [key: string]: Array<Tree | string> }\<close>. An element of such an array is
  a file name or an object; every object the program puts into an array is \<^verbatim>\<open>{ [part]: [] }\<close>,
  with the one key \<open>part\<close>, and no key is ever added to it. So an array element is an \<open>entry\<close>,
  and the root object, which gets one key for each host name, is a list of keys with their
  arrays, in the order the keys were added. (That is also the order in which the keys of the
  object are enumerated: no host name that \<open>parseURL\<close> gives is an array index.)

  The program walks the objects through references and changes the arrays in place. No object
  or array is ever reachable along two paths (each is pushed once, into one array, when it is
  made), so the changed structure is the one the functions below rebuild.
\<close>

datatype entry = File string | Dir string "entry list"

type_synonym tree = "(string \<times> entry list) list"

record item =
  fileUrl :: string

text \<open>
  Reading \<^verbatim>\<open>obj[key]\<close> on a plain object looks for an own key first and then in
  \<^verbatim>\<open>Object.prototype\<close>, whose properties are all truthy (functions, and the prototype itself for
  \<^verbatim>\<open>__proto__\<close>) and none of which is an array.
\<close>

definition objectPrototypeKeys :: "string list" where
  "objectPrototypeKeys =
     [''constructor'', ''__defineGetter__'', ''__defineSetter__'', ''hasOwnProperty'',
      ''__lookupGetter__'', ''__lookupSetter__'', ''isPrototypeOf'', ''propertyIsEnumerable'',
      ''toString'', ''valueOf'', ''__proto__'', ''toLocaleString'']"

text \<open>
  The callback of the first \<^verbatim>\<open>find\<close>:
  \<^verbatim>\<open>entry => typeof entry === 'object' && entry !== null && entry[part]\<close>.
\<close>

fun isDirectoryFor :: "string \<Rightarrow> entry \<Rightarrow> bool" where
  "isDirectoryFor part (File f) = False"
| "isDirectoryFor part (Dir name sub) = (name = part \<or> part \<in> set objectPrototypeKeys)"

text \<open>
  The callback of the second \<^verbatim>\<open>find\<close>:
  \<^verbatim>\<open>entry => entry !== null && typeof entry === 'string' && entry === part\<close>.
\<close>

fun isFileFor :: "string \<Rightarrow> entry \<Rightarrow> bool" where
  "isFileFor part (File f) = (f = part)"
| "isFileFor part (Dir name sub) = False"

text \<open>\<^verbatim>\<open>Array.prototype.find\<close>, by position: the index of the first element that satisfies.\<close>

fun findIndex :: "('a \<Rightarrow> bool) \<Rightarrow> 'a list \<Rightarrow> nat option" where
  "findIndex P [] = None"
| "findIndex P (x # xs) =
     (if P x then Some 0 else (case findIndex P xs of None \<Rightarrow> None | Some i \<Rightarrow> Some (Suc i)))"

text \<open>
  The body of \<^verbatim>\<open>parts.forEach\<close> for the indices from 1 on. \<open>walk isDirectoryUrl ps es\<close> takes the
  parts not yet visited and the array \<^verbatim>\<open>currentTree[currentDirName]\<close>, and gives that array as
  the remaining iterations leave it. For the part \<open>part\<close> with \<open>rest\<close> after it, \<open>rest \<noteq> []\<close> is
  \<^verbatim>\<open>index < parts.length - 1\<close>.
  \<^item> Directory branch. Nothing found: \<^verbatim>\<open>{ [part]: [] }\<close> is pushed, and entered when parts remain.
    Found: when parts remain the found object becomes \<^verbatim>\<open>currentTree\<close> and \<open>part\<close> becomes
    \<^verbatim>\<open>currentDirName\<close>. If the object was found through its own key, \<^verbatim>\<open>currentTree[currentDirName]\<close>
    is its array. If it was found through a key of \<^verbatim>\<open>Object.prototype\<close>, that value is no array
    and the next iteration, which calls \<^verbatim>\<open>.find\<close> on it in either branch, throws.
  \<^item> File branch: \<^verbatim>\<open>foundFile\<close> is the found string, so \<^verbatim>\<open>!foundFile\<close> holds when nothing was found
    and also when the found string is empty.
\<close>

fun walk :: "bool \<Rightarrow> string list \<Rightarrow> entry list \<Rightarrow> js_error + entry list" where
  "walk isDirectoryUrl [] es = Inr es"
| "walk isDirectoryUrl (part # rest) es =
     (if rest \<noteq> [] \<or> isDirectoryUrl then
        (case findIndex (isDirectoryFor part) es of
           None \<Rightarrow>
             (if rest \<noteq> [] then
                (case walk isDirectoryUrl rest [] of
                   Inl e \<Rightarrow> Inl e
                 | Inr sub \<Rightarrow> Inr (es @ [Dir part sub]))
              else Inr (es @ [Dir part []]))
         | Some i \<Rightarrow>
             (if rest \<noteq> [] then
                (case es ! i of
                   Dir name sub \<Rightarrow>
                     if name = part then
                       (case walk isDirectoryUrl rest sub of
                          Inl e \<Rightarrow> Inl e
                        | Inr sub' \<Rightarrow> Inr (es[i := Dir name sub']))
                     else Inl NotAFunction
                 | File f \<Rightarrow> Inl NotAFunction)
              else Inr es))
      else
        (if findIndex (isFileFor part) es = None \<or> part = [] then Inr (es @ [File part])
         else Inr es))"

text \<open>
  The first three statements of the callback of \<^verbatim>\<open>items.forEach\<close>: \<open>parts\<close> is the constant
  \<^verbatim>\<open>parts\<close>, the host name followed by the decoded non-empty pieces of the path.
\<close>

definition isDirectoryUrl :: "item \<Rightarrow> bool" where
  "isDirectoryUrl it = endsWith (fileUrl it) ''/''"

fun decodeAll :: "string list \<Rightarrow> js_error + string list" where
  "decodeAll [] = Inr []"
| "decodeAll (p # ps) =
     (case decodeURIComponent p of
        Inl e \<Rightarrow> Inl e
      | Inr d \<Rightarrow> (case decodeAll ps of Inl e \<Rightarrow> Inl e | Inr ds \<Rightarrow> Inr (d # ds)))"

definition parts :: "item \<Rightarrow> js_error + string list" where
  "parts it =
     (case parseURL (encodeURI (fileUrl it)) of
        None \<Rightarrow> Inl InvalidURL
      | Some u \<Rightarrow>
          (case decodeAll (filter (\<lambda>part. part \<noteq> []) (split (CHR ''/'') (pathname u))) of
             Inl e \<Rightarrow> Inl e
           | Inr ds \<Rightarrow> Inr (hostname u # ds)))"

text \<open>
  Index 0 of \<^verbatim>\<open>parts.forEach\<close>, on the root object: \<^verbatim>\<open>!currentTree[part]\<close> holds when \<open>part\<close> is
  neither a key of the root nor a key of \<^verbatim>\<open>Object.prototype\<close>. In the second case nothing is
  stored, \<^verbatim>\<open>currentTree[currentDirName]\<close> is no array, and an iteration for index 1 throws.
\<close>

fun setKey :: "string \<Rightarrow> entry list \<Rightarrow> tree \<Rightarrow> tree" where
  "setKey k v [] = [(k, v)]"
| "setKey k v ((k', v') # t) = (if k = k' then (k, v) # t else (k', v') # setKey k v t)"

definition insertParts :: "bool \<Rightarrow> string list \<Rightarrow> tree \<Rightarrow> js_error + tree" where
  "insertParts isDir ps t =
     (case ps of
        [] \<Rightarrow> Inr t
      | part # rest \<Rightarrow>
          (case map_of t part of
             Some es \<Rightarrow>
               (case walk isDir rest es of Inl e \<Rightarrow> Inl e | Inr es' \<Rightarrow> Inr (setKey part es' t))
           | None \<Rightarrow>
               if part \<in> set objectPrototypeKeys then
                 (if rest = [] then Inr t else Inl NotAFunction)
               else
                 (case walk isDir rest [] of
                    Inl e \<Rightarrow> Inl e
                  | Inr es' \<Rightarrow> Inr (setKey part es' t))))"

definition addItem :: "tree \<Rightarrow> item \<Rightarrow> js_error + tree" where
  "addItem t it =
     (case parts it of
        Inl e \<Rightarrow> Inl e
      | Inr ps \<Rightarrow> insertParts (isDirectoryUrl it) ps t)"

text \<open>\<^verbatim>\<open>items.forEach\<close>: an exception in one iteration ends the loop and the function.\<close>

fun forEach :: "tree \<Rightarrow> item list \<Rightarrow> js_error + tree" where
  "forEach t [] = Inr t"
| "forEach t (it # items) =
     (case addItem t it of Inl e \<Rightarrow> Inl e | Inr t' \<Rightarrow> forEach t' items)"

definition transformToTree :: "item list \<Rightarrow> js_error + tree" where
  "transformToTree items = forEach [] items"


section \<open>Properties of the tree\<close>

text \<open>An entry is named by what it is and what it is called.\<close>

fun entryKey :: "entry \<Rightarrow> bool \<times> string" where
  "entryKey (File f) = (False, f)"
| "entryKey (Dir name sub) = (True, name)"

text \<open>
  \<open>embedded es es'\<close>: the array \<open>es'\<close> starts with the entries of \<open>es\<close>, in their order, where a
  directory of \<open>es\<close> may have grown in the same way.
\<close>

fun embedded :: "entry list \<Rightarrow> entry list \<Rightarrow> bool" where
  "embedded [] es' = True"
| "embedded (e # es) [] = False"
| "embedded (File f # es) (e' # es') = (e' = File f \<and> embedded es es')"
| "embedded (Dir name sub # es) (e' # es') =
     ((case e' of Dir name' sub' \<Rightarrow> name' = name \<and> embedded sub sub' | File f \<Rightarrow> False)
      \<and> embedded es es')"

fun embeddedTree :: "tree \<Rightarrow> tree \<Rightarrow> bool" where
  "embeddedTree [] t' = True"
| "embeddedTree (x # t) [] = False"
| "embeddedTree ((k, es) # t) ((k', es') # t') = (k' = k \<and> embedded es es' \<and> embeddedTree t t')"

text \<open>
  \<open>uniqueKeys es\<close>: no two files of the array \<open>es\<close> have the same name and no two directories
  have, and so in every directory below.
\<close>

fun uniqueEntry :: "entry \<Rightarrow> bool" where
  "uniqueEntry (File f) = True"
| "uniqueEntry (Dir name sub) = (distinct (map entryKey sub) \<and> list_all uniqueEntry sub)"

definition uniqueKeys :: "entry list \<Rightarrow> bool" where
  "uniqueKeys es = (distinct (map entryKey es) \<and> list_all uniqueEntry es)"

definition uniqueTree :: "tree \<Rightarrow> bool" where
  "uniqueTree t = list_all (\<lambda>x. uniqueKeys (snd x)) t"

text \<open>The name of an entry alone, whatever the entry is.\<close>

definition entryName :: "entry \<Rightarrow> string" where
  "entryName e = snd (entryKey e)"

text \<open>
  The array of the directory reached from the array \<open>es\<close> along the directory names \<open>path\<close>,
  and from the root object under the host name \<open>host\<close>.
\<close>

fun subdir :: "string \<Rightarrow> entry list \<Rightarrow> entry list option" where
  "subdir name [] = None"
| "subdir name (File f # es) = subdir name es"
| "subdir name (Dir name' sub # es) = (if name' = name then Some sub else subdir name es)"

fun childrenAt :: "string list \<Rightarrow> entry list \<Rightarrow> entry list option" where
  "childrenAt [] es = Some es"
| "childrenAt (name # path) es =
     (case subdir name es of None \<Rightarrow> None | Some sub \<Rightarrow> childrenAt path sub)"

definition entriesAt :: "tree \<Rightarrow> string \<Rightarrow> string list \<Rightarrow> entry list option" where
  "entriesAt t host path = (case map_of t host of None \<Rightarrow> None | Some es \<Rightarrow> childrenAt path es)"

text \<open>The keys of the entries of that directory, in their order; none when there is no such directory.\<close>

definition keysAt :: "string list \<Rightarrow> entry list \<Rightarrow> (bool \<times> string) list" where
  "keysAt path es = (case childrenAt path es of None \<Rightarrow> [] | Some c \<Rightarrow> map entryKey c)"

definition keysAtTree :: "tree \<Rightarrow> string \<Rightarrow> string list \<Rightarrow> (bool \<times> string) list" where
  "keysAtTree t host path = (case entriesAt t host path of None \<Rightarrow> [] | Some c \<Rightarrow> map entryKey c)"

text \<open>
  \<open>firstSeen items host path key\<close>: the least \<open>n\<close> such that the tree built from the first \<open>n\<close>
  items has an entry \<open>key\<close> in the directory \<open>path\<close> of \<open>host\<close>; the item that introduced the
  entry is then the \<open>n\<close>-th.
\<close>

definition present :: "item list \<Rightarrow> string \<Rightarrow> string list \<Rightarrow> bool \<times> string \<Rightarrow> bool" where
  "present items host path key =
     (case transformToTree items of
        Inl e \<Rightarrow> False
      | Inr t \<Rightarrow> (case entriesAt t host path of None \<Rightarrow> False | Some es \<Rightarrow> key \<in> set (map entryKey es)))"

definition firstSeen :: "item list \<Rightarrow> string \<Rightarrow> string list \<Rightarrow> bool \<times> string \<Rightarrow> nat option" where
  "firstSeen items host path key =
     findIndex (\<lambda>n. present (take n items) host path key) [0..<Suc (length items)]"

text \<open>The tree of a single item, as the specification describes it: one chain of directories.\<close>

fun spine :: "bool \<Rightarrow> string list \<Rightarrow> entry list" where
  "spine isDir [] = []"
| "spine isDir [p] = [if isDir then Dir p [] else File p]"
| "spine isDir (p # q # ps) = [Dir p (spine isDir (q # ps))]"


section \<open>The cache and the request handler\<close>

text \<open>
  \<^verbatim>\<open>let cache: { tree: Tree, timestamp: number } | null = null\<close>. The state of the server is
  that variable; \<open>upstreamCalls\<close> counts the calls of \<^verbatim>\<open>axios.get\<close> and is there to tell whether
  an operation went to the upstream. \<^verbatim>\<open>Date.now()\<close> is a number of milliseconds, an \<open>int\<close>; each
  operation takes the readings of the clock it makes and the outcome of the upstream call it
  may make as arguments.
\<close>

record cacheEntry =
  tree :: tree
  timestamp :: int

record server =
  cache :: "cacheEntry option"
  upstreamCalls :: nat

definition CACHE_DURATION_MS :: int where
  "CACHE_DURATION_MS = 60000"

text \<open>
  What a \<^verbatim>\<open>catch\<close> can receive: a rejection of \<^verbatim>\<open>axios.get\<close>, of which the handler reads
  \<^verbatim>\<open>error.response\<close> (with its \<^verbatim>\<open>status\<close>) and \<^verbatim>\<open>error.request\<close>, or an exception of
  \<open>transformToTree\<close>, which has neither property.
\<close>

datatype thrown = AxiosError "nat option" bool | JsError js_error

fun response :: "thrown \<Rightarrow> nat option" where
  "response (AxiosError status req) = status"
| "response (JsError e) = None"

fun request :: "thrown \<Rightarrow> bool" where
  "request (AxiosError status req) = req"
| "request (JsError e) = False"

text \<open>
  \<open>fetchDataAndTransform\<close>: \<open>upstream\<close> is the outcome of \<^verbatim>\<open>axios.get\<close>, a rejection or the
  \<^verbatim>\<open>items\<close> of the response.
\<close>

definition fetchDataAndTransform :: "thrown + item list \<Rightarrow> server \<Rightarrow> (thrown + tree) \<times> server" where
  "fetchDataAndTransform upstream s =
     (case upstream of
        Inl err \<Rightarrow> (Inl err, s\<lparr>upstreamCalls := upstreamCalls s + 1\<rparr>)
      | Inr items \<Rightarrow>
          (case transformToTree items of
             Inl e \<Rightarrow> (Inl (JsError e), s\<lparr>upstreamCalls := upstreamCalls s + 1\<rparr>)
           | Inr t \<Rightarrow> (Inr t, s\<lparr>upstreamCalls := upstreamCalls s + 1\<rparr>)))"

text \<open>
  \<open>updateCache\<close>: the time stamp is read before the call (the object literal evaluates
  \<^verbatim>\<open>Date.now()\<close> first); the \<^verbatim>\<open>catch\<close> only logs.
\<close>

definition updateCache :: "int \<Rightarrow> thrown + item list \<Rightarrow> server \<Rightarrow> server" where
  "updateCache now upstream s =
     (case fetchDataAndTransform upstream s of
        (Inr t, s') \<Rightarrow> s'\<lparr>cache := Some \<lparr>tree = t, timestamp = now\<rparr>\<rparr>
      | (Inl err, s') \<Rightarrow> s')"

text \<open>The answer of the handler: the tree as JSON, or a status with an error message.\<close>

datatype reply = Json tree | Failure nat string

text \<open>The \<^verbatim>\<open>catch\<close> block of the handler.\<close>

definition errorReply :: "thrown \<Rightarrow> reply" where
  "errorReply error =
     (case response error of
        Some status \<Rightarrow>
          if status = 504 then Failure 504 ''Gateway Timeout''
          else if status = 502 then Failure 502 ''Bad Gateway''
          else Failure 500 ''Failed to fetch data''
      | None \<Rightarrow>
          if request error then Failure 502 ''Bad Gateway''
          else Failure 500 ''Failed to fetch data'')"

text \<open>
  The handler of \<^verbatim>\<open>GET /api/files\<close>: \<open>now\<close> is the reading of the clock in the test of the
  cache, \<open>now'\<close> the reading after the data has arrived.
\<close>

definition fetchNewData :: "thrown + item list \<Rightarrow> int \<Rightarrow> server \<Rightarrow> reply \<times> server" where
  "fetchNewData upstream now' s =
     (case fetchDataAndTransform upstream s of
        (Inr data, s') \<Rightarrow> (Json data, s'\<lparr>cache := Some \<lparr>tree = data, timestamp = now'\<rparr>\<rparr>)
      | (Inl err, s') \<Rightarrow> (errorReply err, s'))"

definition getApiFiles :: "int \<Rightarrow> thrown + item list \<Rightarrow> int \<Rightarrow> server \<Rightarrow> reply \<times> server" where
  "getApiFiles now upstream now' s =
     (case cache s of
        None \<Rightarrow> fetchNewData upstream now' s
      | Some c \<Rightarrow>
          if now - timestamp c < CACHE_DURATION_MS then (Json (tree c), s)
          else fetchNewData upstream now' s)"

section \<open>Evaluation\<close>

text \<open>The definitions that the simplifier unfolds to run the program on a given input.\<close>

lemmas char_defs = isDigit_def isUpper_def isLower_def isAlpha_def toLower_def hexDigit_def
  hexVal_def char_of_def bit_Suc_0_iff

lemmas url_defs = parseURL_def splitScheme_def isSchemeChar_def specialSchemes_def
  parseAuthority_def inAuthority_def afterLastAt_def parseHostPort_def portOk_def parseHost_def
  forbiddenHostChar_def domainOrIPv4_def endsInNumber_def endsInNumberLabels_def
  lastLabelIsNumber_def isNumber_def isHexNumber_def isDecimalIPv4_def isDecimalIPv4Labels_def
  isIPv4Part_def parsePath_def dropLeadingSlash_def isSingleDot_def isDoubleDot_def

lemmas tree_defs = transformToTree_def addItem_def insertParts_def parts_def isDirectoryUrl_def
  endsWith_def encodeURI_def uriKept_def objectPrototypeKeys_def

lemmas eval_defs = tree_defs url_defs char_defs

section \<open>Lemmas\<close>

subsection \<open>Finding an entry\<close>

lemma findIndex_None: "findIndex P xs = None \<longleftrightarrow> (\<forall>x\<in>set xs. \<not> P x)"
  by (induction xs) (auto split: option.splits)

lemma findIndex_Some:
  "findIndex P xs = Some i \<Longrightarrow> i < length xs \<and> P (xs ! i) \<and> (\<forall>j<i. \<not> P (xs ! j))"
proof (induction xs arbitrary: i)
  case Nil
  then show ?case by simp
next
  case (Cons x xs)
  show ?case
  proof (cases "P x")
    case True
    with Cons.prems show ?thesis by simp
  next
    case False
    with Cons.prems obtain k where k: "findIndex P xs = Some k" "i = Suc k"
      by (auto split: option.splits)
    from Cons.IH[OF k(1)] False k(2) show ?thesis
      by (auto simp: less_Suc_eq_0_disj)
  qed
qed

lemma findIndex_map_cong:
  "map P xs = map P ys \<Longrightarrow> findIndex P xs = findIndex P ys"
proof (induction xs arbitrary: ys)
  case Nil
  then show ?case by simp
next
  case (Cons x xs)
  then obtain y ys' where "ys = y # ys'" by (cases ys) auto
  with Cons show ?case by auto
qed

lemma findIndex_append:
  "findIndex P (xs @ ys) =
     (case findIndex P xs of
        Some i \<Rightarrow> Some i
      | None \<Rightarrow> (case findIndex P ys of None \<Rightarrow> None | Some j \<Rightarrow> Some (length xs + j)))"
  by (induction xs) (auto split: option.splits)

lemma embedded_refl_aux: "es' = es \<Longrightarrow> embedded es es'"
  by (induction es es' rule: embedded.induct) auto

lemma embedded_refl: "embedded es es"
  by (simp add: embedded_refl_aux)

lemma embedded_trans: "embedded es es' \<Longrightarrow> embedded es' es'' \<Longrightarrow> embedded es es''"
proof (induction es es' arbitrary: es'' rule: embedded.induct)
  case (1 es')
  then show ?case by simp
next
  case (2 e es)
  then show ?case by simp
next
  case (3 f es e' es')
  then show ?case by (cases es'') auto
next
  case (4 name sub es e' es')
  then show ?case by (cases es'') (auto split: entry.splits)
qed

lemma embedded_append: "embedded es (es @ xs)"
proof -
  have "es' = es @ xs \<Longrightarrow> embedded es es'" for es'
    by (induction es es' rule: embedded.induct) (auto simp: embedded_refl)
  then show ?thesis by simp
qed

lemma embedded_update:
  "i < length es \<Longrightarrow> es ! i = Dir name sub \<Longrightarrow> embedded sub sub' \<Longrightarrow>
   embedded es (es[i := Dir name sub'])"
proof (induction es arbitrary: i)
  case Nil
  then show ?case by simp
next
  case (Cons e es)
  show ?case
  proof (cases i)
    case 0
    with Cons.prems show ?thesis by (simp add: embedded_refl)
  next
    case (Suc k)
    with Cons show ?thesis by (cases e) (auto simp: embedded_refl)
  qed
qed

lemma walk_embedded: "walk d ps es = Inr es' \<Longrightarrow> embedded es es'"
proof (induction d ps es arbitrary: es' rule: walk.induct)
  case (1 d es)
  then show ?case by (simp add: embedded_refl)
next
  case (2 d part rest es)
  show ?case
  proof (cases "rest \<noteq> [] \<or> d")
    case False
    with "2.prems" show ?thesis
      by (auto simp: embedded_refl embedded_append split: if_splits)
  next
    case dir: True
    show ?thesis
    proof (cases "findIndex (isDirectoryFor part) es")
      case None
      with dir "2.prems" show ?thesis
        by (auto simp: embedded_append split: if_splits sum.splits)
    next
      case (Some i)
      show ?thesis
      proof (cases "rest = []")
        case True
        with dir Some "2.prems" show ?thesis by (simp add: embedded_refl)
      next
        case False
        from findIndex_Some[OF Some] have i: "i < length es" by simp
        from False dir Some "2.prems" obtain sub sub' where
          e: "es ! i = Dir part sub" and w: "walk d rest sub = Inr sub'"
          and r: "es' = es[i := Dir part sub']"
          by (auto split: entry.splits if_splits sum.splits)
        from "2.IH"(2)[OF dir Some False e refl w] have "embedded sub sub'" .
        with i e r show ?thesis by (simp add: embedded_update)
      qed
    qed
  qed
qed

lemma walk_Cons_elim:
  assumes "walk d (part # rest) es = Inr es'"
  obtains
    (file_new) "rest = []" "\<not> d" "findIndex (isFileFor part) es = None \<or> part = []"
      "es' = es @ [File part]"
  | (file_found) "rest = []" "\<not> d" "findIndex (isFileFor part) es \<noteq> None" "part \<noteq> []" "es' = es"
  | (dir_new_last) "rest = []" "d" "findIndex (isDirectoryFor part) es = None"
      "es' = es @ [Dir part []]"
  | (dir_found_last) i where "rest = []" "d" "findIndex (isDirectoryFor part) es = Some i" "es' = es"
  | (dir_new) sub where "rest \<noteq> []" "findIndex (isDirectoryFor part) es = None"
      "walk d rest [] = Inr sub" "es' = es @ [Dir part sub]"
  | (dir_enter) i sub sub' where "rest \<noteq> []" "findIndex (isDirectoryFor part) es = Some i"
      "i < length es" "es ! i = Dir part sub" "walk d rest sub = Inr sub'"
      "es' = es[i := Dir part sub']"
proof (cases "rest = []")
  case True
  show ?thesis
  proof (cases d)
    case False
    show ?thesis
    proof (cases "findIndex (isFileFor part) es = None \<or> part = []")
      case c: True
      with True False assms have "es' = es @ [File part]" by auto
      with True False c show ?thesis by (rule file_new)
    next
      case c: False
      with True False assms have "es' = es" by auto
      with True False c show ?thesis by (intro file_found) auto
    qed
  next
    case d: True
    show ?thesis
    proof (cases "findIndex (isDirectoryFor part) es")
      case None
      with True d assms have "es' = es @ [Dir part []]" by auto
      with True d None show ?thesis by (rule dir_new_last)
    next
      case (Some i)
      with True d assms have "es' = es" by auto
      with True d Some show ?thesis by (rule dir_found_last)
    qed
  qed
next
  case False
  show ?thesis
  proof (cases "findIndex (isDirectoryFor part) es")
    case None
    with False assms obtain sub where "walk d rest [] = Inr sub" "es' = es @ [Dir part sub]"
      by (auto split: sum.splits)
    with False None show ?thesis by (rule dir_new)
  next
    case (Some i)
    from findIndex_Some[OF Some] have i: "i < length es" by simp
    from False Some assms obtain sub sub' where
      "es ! i = Dir part sub" "walk d rest sub = Inr sub'" "es' = es[i := Dir part sub']"
      by (auto split: entry.splits if_splits sum.splits)
    with False Some i show ?thesis by (rule dir_enter)
  qed
qed


lemma no_file_key:
  "findIndex (isFileFor part) es = None \<Longrightarrow> (False, part) \<notin> entryKey ` set es"
proof (induction es)
  case Nil
  then show ?case by simp
next
  case (Cons e es)
  then show ?case by (cases e) (auto split: if_splits option.splits)
qed

lemma no_dir_key:
  "findIndex (isDirectoryFor part) es = None \<Longrightarrow> (True, part) \<notin> entryKey ` set es"
proof (induction es)
  case Nil
  then show ?case by simp
next
  case (Cons e es)
  then show ?case by (cases e) (auto split: if_splits option.splits)
qed

lemma file_key_found:
  "findIndex (isFileFor part) es \<noteq> None \<longleftrightarrow> (False, part) \<in> entryKey ` set es"
proof (induction es)
  case Nil
  then show ?case by simp
next
  case (Cons e es)
  then show ?case by (cases e) (auto split: if_splits option.splits)
qed

lemma map_entryKey_update:
  "i < length es \<Longrightarrow> es ! i = Dir name sub \<Longrightarrow>
   map entryKey (es[i := Dir name sub']) = map entryKey es"
  by (simp add: map_update list_update_same_conv)

lemma uniqueKeys_Nil: "uniqueKeys []"
  by (simp add: uniqueKeys_def)

lemma uniqueKeys_snoc:
  "uniqueKeys es \<Longrightarrow> entryKey e \<notin> entryKey ` set es \<Longrightarrow> uniqueEntry e \<Longrightarrow>
   uniqueKeys (es @ [e])"
  by (simp add: uniqueKeys_def)

lemma uniqueEntry_Dir: "uniqueEntry (Dir name sub) = uniqueKeys sub"
  by (simp add: uniqueKeys_def)

lemma uniqueKeys_nth:
  "uniqueKeys es \<Longrightarrow> i < length es \<Longrightarrow> es ! i = Dir name sub \<Longrightarrow> uniqueKeys sub"
  by (metis list_all_length uniqueEntry_Dir uniqueKeys_def)

lemma uniqueKeys_update:
  assumes "uniqueKeys es" "i < length es" "es ! i = Dir name sub" "uniqueKeys sub'"
  shows "uniqueKeys (es[i := Dir name sub'])"
proof -
  have "list_all uniqueEntry (es[i := Dir name sub'])"
    using assms unfolding uniqueKeys_def list_all_length
    by (auto simp: nth_list_update uniqueKeys_def list_all_length)
  with assms show ?thesis
    by (simp add: uniqueKeys_def map_entryKey_update)
qed

lemma walk_uniqueKeys:
  "[] \<notin> set ps \<Longrightarrow> uniqueKeys es \<Longrightarrow> walk d ps es = Inr es' \<Longrightarrow> uniqueKeys es'"
proof (induction ps arbitrary: es es')
  case Nil
  then show ?case by simp
next
  case (Cons part rest)
  from Cons.prems(1) have ne: "part \<noteq> []" and rest: "[] \<notin> set rest" by auto
  from Cons.prems(3) show ?case
  proof (cases rule: walk_Cons_elim)
    case file_new
    with ne have "(False, part) \<notin> entryKey ` set es" by (simp add: no_file_key)
    with file_new Cons.prems(2) show ?thesis by (simp add: uniqueKeys_snoc)
  next
    case file_found
    with Cons.prems(2) show ?thesis by simp
  next
    case dir_new_last
    then have "(True, part) \<notin> entryKey ` set es" by (simp add: no_dir_key)
    with dir_new_last Cons.prems(2) show ?thesis by (simp add: uniqueKeys_snoc)
  next
    case (dir_found_last i)
    with Cons.prems(2) show ?thesis by simp
  next
    case (dir_new sub)
    then have k: "(True, part) \<notin> entryKey ` set es" by (simp add: no_dir_key)
    from Cons.IH[OF rest uniqueKeys_Nil dir_new(3)] have "uniqueKeys sub" .
    then have "uniqueEntry (Dir part sub)" by (simp only: uniqueEntry_Dir)
    with k dir_new Cons.prems(2) show ?thesis by (simp add: uniqueKeys_snoc del: uniqueEntry.simps)
  next
    case (dir_enter i sub sub')
    from Cons.prems(2) dir_enter(3,4) have "uniqueKeys sub" by (rule uniqueKeys_nth)
    from Cons.IH[OF rest this dir_enter(5)] have "uniqueKeys sub'" .
    with Cons.prems(2) dir_enter show ?thesis by (simp add: uniqueKeys_update)
  qed
qed


lemma findIndex_snoc_new:
  "findIndex P es = None \<Longrightarrow> P e \<Longrightarrow> findIndex P (es @ [e]) = Some (length es)"
  by (simp add: findIndex_append)

lemma findIndex_update_dir:
  "i < length es \<Longrightarrow> es ! i = Dir name sub \<Longrightarrow>
   findIndex (isDirectoryFor part) (es[i := Dir name sub']) = findIndex (isDirectoryFor part) es"
  by (rule findIndex_map_cong) (simp add: map_update list_update_same_conv)

lemma embedded_length: "embedded es es' \<Longrightarrow> length es \<le> length es'"
  by (induction es es' rule: embedded.induct) auto

lemma embedded_nth_Dir:
  "embedded es es' \<Longrightarrow> i < length es \<Longrightarrow> es ! i = Dir name sub \<Longrightarrow>
   \<exists>sub'. es' ! i = Dir name sub' \<and> embedded sub sub'"
proof (induction es es' arbitrary: i rule: embedded.induct)
  case (1 es')
  then show ?case by simp
next
  case (2 e es)
  then show ?case by simp
next
  case (3 f es e' es')
  then show ?case by (cases i) auto
next
  case (4 name' sub0 es e' es')
  then show ?case by (cases i) (auto split: entry.splits)
qed

lemma embedded_findIndex_dir:
  "embedded es es' \<Longrightarrow> findIndex (isDirectoryFor part) es = Some i \<Longrightarrow>
   findIndex (isDirectoryFor part) es' = Some i"
proof (induction es es' arbitrary: i rule: embedded.induct)
  case (1 es')
  then show ?case by simp
next
  case (2 e es)
  then show ?case by simp
next
  case (3 f es e' es')
  then show ?case by (auto split: option.splits)
next
  case (4 name' sub0 es e' es')
  then show ?case by (auto split: option.splits entry.splits if_splits)
qed

lemma embedded_findIndex_file:
  "embedded es es' \<Longrightarrow> findIndex (isFileFor part) es = Some i \<Longrightarrow>
   findIndex (isFileFor part) es' = Some i"
proof (induction es es' arbitrary: i rule: embedded.induct)
  case (1 es')
  then show ?case by simp
next
  case (2 e es)
  then show ?case by simp
next
  case (3 f es e' es')
  then show ?case by (auto split: option.splits if_splits)
next
  case (4 name' sub0 es e' es')
  then show ?case by (auto split: option.splits entry.splits if_splits)
qed

lemma snoc_neq: "es \<noteq> es @ [e]"
  by simp

lemma walk_noop_embedded:
  "walk d ps es = Inr es \<Longrightarrow> embedded es es' \<Longrightarrow> walk d ps es' = Inr es'"
proof (induction ps arbitrary: es es')
  case Nil
  then show ?case by simp
next
  case (Cons part rest)
  from Cons.prems(1) show ?case
  proof (cases rule: walk_Cons_elim)
    case file_new
    then show ?thesis by simp
  next
    case file_found
    then obtain i where "findIndex (isFileFor part) es = Some i" by auto
    with Cons.prems(2) have "findIndex (isFileFor part) es' = Some i"
      by (rule embedded_findIndex_file)
    with file_found show ?thesis by simp
  next
    case dir_new_last
    then show ?thesis by simp
  next
    case (dir_found_last i)
    with Cons.prems(2) have "findIndex (isDirectoryFor part) es' = Some i"
      by (simp add: embedded_findIndex_dir)
    with dir_found_last show ?thesis by simp
  next
    case (dir_new sub)
    then show ?thesis by simp
  next
    case (dir_enter i sub sub')
    from dir_enter(3,6) have "es ! i = Dir part sub'"
      by (metis nth_list_update_eq)
    with dir_enter(4) have same: "sub' = sub" by simp
    from Cons.prems(2) dir_enter(2) have f: "findIndex (isDirectoryFor part) es' = Some i"
      by (rule embedded_findIndex_dir)
    from embedded_nth_Dir[OF Cons.prems(2) dir_enter(3,4)] obtain sub'' where
      s: "es' ! i = Dir part sub''" "embedded sub sub''" by blast
    from dir_enter(5) same have "walk d rest sub = Inr sub" by simp
    from Cons.IH[OF this s(2)] have "walk d rest sub'' = Inr sub''" .
    moreover from s(1) have "es'[i := Dir part sub''] = es'"
      by (metis list_update_id)
    ultimately show ?thesis using dir_enter(1) f s(1) by simp
  qed
qed

lemma walk_idem:
  "[] \<notin> set ps \<Longrightarrow> walk d ps es = Inr es1 \<Longrightarrow> walk d ps es1 = Inr es1"
proof (induction ps arbitrary: es es1)
  case Nil
  then show ?case by simp
next
  case (Cons part rest)
  from Cons.prems(1) have ne: "part \<noteq> []" and rest: "[] \<notin> set rest" by auto
  from Cons.prems(2) show ?case
  proof (cases rule: walk_Cons_elim)
    case file_new
    with ne show ?thesis by (simp add: findIndex_append split: option.splits)
  next
    case file_found
    with Cons.prems(2) show ?thesis by simp
  next
    case dir_new_last
    then show ?thesis by (simp add: findIndex_append)
  next
    case (dir_found_last i)
    with Cons.prems(2) show ?thesis by simp
  next
    case (dir_new sub)
    from Cons.IH[OF rest dir_new(3)] have "walk d rest sub = Inr sub" .
    with dir_new show ?thesis by (simp add: findIndex_append)
  next
    case (dir_enter i sub sub')
    from Cons.IH[OF rest dir_enter(5)] have "walk d rest sub' = Inr sub'" .
    with dir_enter show ?thesis by (simp add: findIndex_update_dir)
  qed
qed

lemma walk_Nil_spine: "walk d ps [] = Inr (spine d ps)"
  by (induction d ps rule: spine.induct) auto


lemma subdir_append:
  "subdir name (es @ xs) = (case subdir name es of Some s \<Rightarrow> Some s | None \<Rightarrow> subdir name xs)"
  by (induction name es rule: subdir.induct) auto

lemma subdir_not_found:
  "findIndex (isDirectoryFor part) es = None \<Longrightarrow> subdir part es = None"
  by (induction part es rule: subdir.induct) (auto split: option.splits if_splits)

lemma subdir_found:
  "findIndex (isDirectoryFor part) es = Some i \<Longrightarrow> es ! i = Dir part sub \<Longrightarrow>
   subdir part es = Some sub"
proof (induction part es arbitrary: i rule: subdir.induct)
  case (1 name)
  then show ?case by simp
next
  case (2 name f es)
  then show ?case by (auto split: option.splits)
next
  case (3 name name' sub0 es)
  then show ?case by (auto split: option.splits if_splits)
qed

lemma subdir_update_same:
  "findIndex (isDirectoryFor part) es = Some i \<Longrightarrow> es ! i = Dir part sub \<Longrightarrow>
   subdir part (es[i := Dir part sub']) = Some sub'"
proof (induction part es arbitrary: i rule: subdir.induct)
  case (1 name)
  then show ?case by simp
next
  case (2 name f es)
  then show ?case by (auto split: option.splits)
next
  case (3 name name' sub0 es)
  then show ?case by (auto split: option.splits if_splits)
qed

lemma subdir_update_other:
  "name \<noteq> part \<Longrightarrow> i < length es \<Longrightarrow> es ! i = Dir part sub \<Longrightarrow>
   subdir name (es[i := Dir part sub']) = subdir name es"
proof (induction name es arbitrary: i rule: subdir.induct)
  case (1 name)
  then show ?case by simp
next
  case (2 name f es)
  then show ?case by (cases i) auto
next
  case (3 name name' sub0 es)
  then show ?case by (cases i) auto
qed

lemma keysAt_Nil: "keysAt [] es = map entryKey es"
  by (simp add: keysAt_def)

lemma keysAt_Cons:
  "keysAt (name # path) es = (case subdir name es of None \<Rightarrow> [] | Some sub \<Rightarrow> keysAt path sub)"
  by (simp add: keysAt_def split: option.splits)

lemma keysAt_empty: "keysAt path [] = []"
  by (cases path) (simp_all add: keysAt_def)

lemma keysAt_snoc_File: "keysAt (name # path) (es @ [File f]) = keysAt (name # path) es"
  by (simp add: keysAt_Cons subdir_append split: option.splits)

lemma walk_keysAt:
  "walk d ps es = Inr es' \<Longrightarrow>
   \<exists>extra. keysAt path es' = keysAt path es @ extra \<and> length extra \<le> 1"
proof (induction ps arbitrary: es es' path)
  case Nil
  then show ?case by simp
next
  case (Cons part rest)
  from Cons.prems show ?case
  proof (cases rule: walk_Cons_elim)
    case file_new
    then show ?thesis by (cases path) (simp_all add: keysAt_Nil keysAt_snoc_File)
  next
    case file_found
    then show ?thesis by simp
  next
    case dir_new_last
    show ?thesis
    proof (cases path)
      case Nil
      with dir_new_last show ?thesis by (simp add: keysAt_Nil)
    next
      case (Cons name path')
      with dir_new_last subdir_not_found[of part es] show ?thesis
        by (auto simp: keysAt_Cons subdir_append keysAt_empty split: option.splits)
    qed
  next
    case (dir_found_last i)
    then show ?thesis by simp
  next
    case (dir_new sub)
    show ?thesis
    proof (cases path)
      case Nil
      with dir_new show ?thesis by (simp add: keysAt_Nil)
    next
      case (Cons name path')
      from Cons.IH[OF dir_new(3), of path'] obtain extra where
        "keysAt path' sub = extra" "length extra \<le> 1"
        by (auto simp: keysAt_empty)
      with Cons dir_new subdir_not_found[of part es] show ?thesis
        by (auto simp: keysAt_Cons subdir_append split: option.splits)
    qed
  next
    case (dir_enter i sub sub')
    show ?thesis
    proof (cases path)
      case Nil
      with dir_enter show ?thesis by (simp add: keysAt_Nil map_entryKey_update)
    next
      case (Cons name path')
      show ?thesis
      proof (cases "name = part")
        case True
        from dir_enter have "subdir part es = Some sub" "subdir part es' = Some sub'"
          by (simp_all add: subdir_found subdir_update_same)
        with Cons True Cons.IH[OF dir_enter(5), of path'] show ?thesis
          by (simp add: keysAt_Cons)
      next
        case False
        with dir_enter have "subdir name es' = subdir name es"
          by (simp add: subdir_update_other)
        with Cons show ?thesis by (simp add: keysAt_Cons)
      qed
    qed
  qed
qed

subsection \<open>The root object\<close>

lemma map_of_setKey: "map_of (setKey k v t) = (map_of t)(k \<mapsto> v)"
  by (induction k v t rule: setKey.induct) auto

lemma setKey_same: "map_of t k = Some v \<Longrightarrow> setKey k v t = t"
  by (induction k v t rule: setKey.induct) (auto split: if_splits)

lemma setKey_new: "map_of t k = None \<Longrightarrow> setKey k v t = t @ [(k, v)]"
  by (induction k v t rule: setKey.induct) (auto split: if_splits)

lemma embeddedTree_refl_aux: "t' = t \<Longrightarrow> embeddedTree t t'"
  by (induction t t' rule: embeddedTree.induct) (auto simp: embedded_refl)

lemma embeddedTree_refl: "embeddedTree t t"
  by (simp add: embeddedTree_refl_aux)

lemma embeddedTree_trans:
  "embeddedTree t t' \<Longrightarrow> embeddedTree t' t'' \<Longrightarrow> embeddedTree t t''"
proof (induction t t' arbitrary: t'' rule: embeddedTree.induct)
  case (1 t')
  then show ?case by simp
next
  case (2 x t)
  then show ?case by simp
next
  case (3 k es t k' es' t')
  then show ?case by (cases t'') (auto intro: embedded_trans)
qed

lemma embeddedTree_append: "embeddedTree t (t @ xs)"
proof -
  have "t' = t @ xs \<Longrightarrow> embeddedTree t t'" for t'
    by (induction t t' rule: embeddedTree.induct) (auto simp: embedded_refl)
  then show ?thesis by simp
qed

lemma embeddedTree_setKey:
  "map_of t k = Some es \<Longrightarrow> embedded es es' \<Longrightarrow> embeddedTree t (setKey k es' t)"
  by (induction k es' t rule: setKey.induct)
     (auto simp: embeddedTree_refl embedded_refl split: if_splits)

lemma embeddedTree_map_of:
  "embeddedTree t t' \<Longrightarrow> map_of t k = Some es \<Longrightarrow>
   \<exists>es'. map_of t' k = Some es' \<and> embedded es es'"
  by (induction t t' rule: embeddedTree.induct) (auto split: if_splits)


lemma insertParts_Cons_elim:
  assumes "insertParts d (part # rest) t = Inr t'"
  obtains
    (own) es es' where "map_of t part = Some es" "walk d rest es = Inr es'" "t' = setKey part es' t"
  | (inherited) "map_of t part = None" "part \<in> set objectPrototypeKeys" "rest = []" "t' = t"
  | (new) es' where "map_of t part = None" "part \<notin> set objectPrototypeKeys"
      "walk d rest [] = Inr es'" "t' = setKey part es' t" "t' = t @ [(part, es')]"
proof (cases "map_of t part")
  case (Some es)
  with assms obtain es' where "walk d rest es = Inr es'" "t' = setKey part es' t"
    by (auto simp: insertParts_def split: sum.splits)
  with Some show ?thesis by (rule own)
next
  case None
  show ?thesis
  proof (cases "part \<in> set objectPrototypeKeys")
    case True
    with None assms have "rest = []" "t' = t"
      by (auto simp: insertParts_def split: if_splits)
    with None True show ?thesis by (rule inherited)
  next
    case False
    with None assms obtain es' where "walk d rest [] = Inr es'" "t' = setKey part es' t"
      by (auto simp: insertParts_def split: sum.splits)
    with None False show ?thesis by (intro new) (auto simp: setKey_new)
  qed
qed

lemma insertParts_embedded: "insertParts d ps t = Inr t' \<Longrightarrow> embeddedTree t t'"
proof (cases ps)
  case Nil
  assume "insertParts d ps t = Inr t'"
  with Nil show ?thesis by (simp add: insertParts_def embeddedTree_refl)
next
  case (Cons part rest)
  assume "insertParts d ps t = Inr t'"
  with Cons have "insertParts d (part # rest) t = Inr t'" by simp
  then show ?thesis
  proof (cases rule: insertParts_Cons_elim)
    case (own es es')
    then show ?thesis by (simp add: embeddedTree_setKey walk_embedded)
  next
    case inherited
    then show ?thesis by (simp add: embeddedTree_refl)
  next
    case (new es')
    from new(5) show ?thesis by (simp only: embeddedTree_append)
  qed
qed

lemma insertParts_idem:
  assumes "[] \<notin> set (tl ps)" "insertParts d ps t = Inr t1"
  shows "insertParts d ps t1 = Inr t1"
proof (cases ps)
  case Nil
  then show ?thesis by (simp add: insertParts_def)
next
  case (Cons part rest)
  with assms have rest: "[] \<notin> set rest" and "insertParts d (part # rest) t = Inr t1" by simp_all
  from this(2) show ?thesis
  proof (cases rule: insertParts_Cons_elim)
    case (own es es')
    from walk_idem[OF rest own(2)] have "walk d rest es' = Inr es'" .
    moreover from own have "map_of t1 part = Some es'" by (simp add: map_of_setKey)
    ultimately show ?thesis using Cons by (simp add: insertParts_def setKey_same)
  next
    case inherited
    with Cons show ?thesis by (simp add: insertParts_def)
  next
    case (new es')
    from walk_idem[OF rest new(3)] have "walk d rest es' = Inr es'" .
    moreover from new have "map_of t1 part = Some es'" by (simp add: map_of_setKey)
    ultimately show ?thesis using Cons by (simp add: insertParts_def setKey_same)
  qed
qed

lemma insertParts_noop_embedded:
  assumes "insertParts d ps t = Inr t" "embeddedTree t t'"
  shows "insertParts d ps t' = Inr t'"
proof (cases ps)
  case Nil
  then show ?thesis by (simp add: insertParts_def)
next
  case (Cons part rest)
  with assms have "insertParts d (part # rest) t = Inr t" by simp
  then show ?thesis
  proof (cases rule: insertParts_Cons_elim)
    case (own es es')
    from own(1,3) have "es' = es" by (metis map_of_setKey map_upd_Some_unfold option.inject)
    with own have w: "walk d rest es = Inr es" by simp
    from embeddedTree_map_of[OF assms(2) own(1)] obtain es'' where
      e: "map_of t' part = Some es''" "embedded es es''" by blast
    from walk_noop_embedded[OF w e(2)] have "walk d rest es'' = Inr es''" .
    with e(1) Cons show ?thesis by (simp add: insertParts_def setKey_same)
  next
    case inherited
    with Cons show ?thesis
      by (cases "map_of t' part") (simp_all add: insertParts_def setKey_same)
  next
    case (new es')
    then show ?thesis by simp
  qed
qed

lemma set_setKey: "set (setKey k v t) \<subseteq> insert (k, v) (set t)"
  by (induction k v t rule: setKey.induct) auto

lemma uniqueTree_setKey: "uniqueTree t \<Longrightarrow> uniqueKeys v \<Longrightarrow> uniqueTree (setKey k v t)"
  using set_setKey[of k v t] by (auto simp: uniqueTree_def list_all_iff)

lemma uniqueTree_map_of: "uniqueTree t \<Longrightarrow> map_of t k = Some es \<Longrightarrow> uniqueKeys es"
  by (force simp: uniqueTree_def list_all_iff dest: map_of_SomeD)

lemma insertParts_uniqueTree:
  assumes "[] \<notin> set (tl ps)" "uniqueTree t" "insertParts d ps t = Inr t'"
  shows "uniqueTree t'"
proof (cases ps)
  case Nil
  with assms show ?thesis by (simp add: insertParts_def)
next
  case (Cons part rest)
  with assms have rest: "[] \<notin> set rest" and "insertParts d (part # rest) t = Inr t'" by simp_all
  from this(2) show ?thesis
  proof (cases rule: insertParts_Cons_elim)
    case (own es es')
    from assms(2) own(1) have "uniqueKeys es" by (rule uniqueTree_map_of)
    from walk_uniqueKeys[OF rest this own(2)] assms(2) own(3) show ?thesis
      by (simp add: uniqueTree_setKey)
  next
    case inherited
    with assms(2) show ?thesis by simp
  next
    case (new es')
    from walk_uniqueKeys[OF rest uniqueKeys_Nil new(3)] assms(2) new(4) show ?thesis
      by (simp add: uniqueTree_setKey)
  qed
qed

lemma keysAtTree_alt:
  "keysAtTree t host path = (case map_of t host of None \<Rightarrow> [] | Some es \<Rightarrow> keysAt path es)"
  by (simp add: keysAtTree_def entriesAt_def keysAt_def split: option.splits)

lemma insertParts_keysAtTree:
  assumes "insertParts d ps t = Inr t'"
  shows "\<exists>extra. keysAtTree t' host path = keysAtTree t host path @ extra \<and> length extra \<le> 1"
proof (cases ps)
  case Nil
  with assms show ?thesis by (simp add: insertParts_def)
next
  case (Cons part rest)
  with assms have "insertParts d (part # rest) t = Inr t'" by simp
  then show ?thesis
  proof (cases rule: insertParts_Cons_elim)
    case (own es es')
    show ?thesis
    proof (cases "host = part")
      case True
      with own walk_keysAt[OF own(2), of path] show ?thesis
        by (simp add: keysAtTree_alt map_of_setKey)
    next
      case False
      with own show ?thesis by (simp add: keysAtTree_alt map_of_setKey)
    qed
  next
    case inherited
    then show ?thesis by simp
  next
    case (new es')
    show ?thesis
    proof (cases "host = part")
      case True
      with new(1,4) walk_keysAt[OF new(3), of path] show ?thesis
        by (simp add: keysAtTree_alt keysAt_empty map_of_setKey)
    next
      case False
      with new(1,4) show ?thesis by (simp add: keysAtTree_alt map_of_setKey)
    qed
  qed
qed


subsection \<open>The parts of an item\<close>

lemma decodeURIComponent_nonempty:
  "decodeURIComponent p = Inr d \<Longrightarrow> p \<noteq> [] \<Longrightarrow> d \<noteq> []"
  by (cases p) (auto split: if_splits list.splits option.splits sum.splits)

lemma decodeAll_nonempty:
  "decodeAll ps = Inr ds \<Longrightarrow> [] \<notin> set ps \<Longrightarrow> [] \<notin> set ds"
proof (induction ps arbitrary: ds)
  case Nil
  then show ?case by simp
next
  case (Cons p ps)
  from Cons.prems obtain d ds' where
    d: "decodeURIComponent p = Inr d" "decodeAll ps = Inr ds'" "ds = d # ds'"
    by (auto split: sum.splits)
  from Cons.prems(2) d(1) have "d \<noteq> []" by (auto dest: decodeURIComponent_nonempty)
  moreover from Cons.IH[OF d(2)] Cons.prems(2) have "[] \<notin> set ds'" by simp
  ultimately show ?case using d(3) by auto
qed

lemma parts_nonempty: "parts it = Inr ps \<Longrightarrow> ps \<noteq> [] \<and> [] \<notin> set (tl ps)"
proof -
  assume a: "parts it = Inr ps"
  then obtain h segs ds where
    ds: "decodeAll (filter (\<lambda>part. part \<noteq> []) segs) = Inr ds"
    and ps: "ps = h # ds"
    by (fastforce simp: parts_def split: option.splits sum.splits)
  from decodeAll_nonempty[OF ds] have "[] \<notin> set ds" by simp
  with ps show ?thesis by simp
qed

lemma addItem_embedded: "addItem t it = Inr t' \<Longrightarrow> embeddedTree t t'"
  by (auto simp: addItem_def split: sum.splits dest: insertParts_embedded)

lemma addItem_idem: "addItem t it = Inr t1 \<Longrightarrow> addItem t1 it = Inr t1"
  by (auto simp: addItem_def split: sum.splits dest: parts_nonempty intro: insertParts_idem)

lemma addItem_noop_embedded:
  "addItem t it = Inr t \<Longrightarrow> embeddedTree t t' \<Longrightarrow> addItem t' it = Inr t'"
  by (auto simp: addItem_def split: sum.splits intro: insertParts_noop_embedded)

lemma addItem_uniqueTree: "uniqueTree t \<Longrightarrow> addItem t it = Inr t' \<Longrightarrow> uniqueTree t'"
  by (auto simp: addItem_def split: sum.splits dest: parts_nonempty intro: insertParts_uniqueTree)

lemma addItem_keysAtTree:
  "addItem t it = Inr t' \<Longrightarrow>
   \<exists>extra. keysAtTree t' host path = keysAtTree t host path @ extra \<and> length extra \<le> 1"
proof -
  assume "addItem t it = Inr t'"
  then obtain ps where "insertParts (isDirectoryUrl it) ps t = Inr t'"
    by (auto simp: addItem_def split: sum.splits)
  then show ?thesis by (rule insertParts_keysAtTree)
qed

subsection \<open>The loop over the items\<close>

lemma forEach_append:
  "forEach t (xs @ ys) = (case forEach t xs of Inl e \<Rightarrow> Inl e | Inr t' \<Rightarrow> forEach t' ys)"
  by (induction xs arbitrary: t) (auto split: sum.splits)

lemma forEach_embedded: "forEach t xs = Inr t' \<Longrightarrow> embeddedTree t t'"
proof (induction xs arbitrary: t)
  case Nil
  then show ?case by (simp add: embeddedTree_refl)
next
  case (Cons x xs)
  then obtain t1 where "addItem t x = Inr t1" "forEach t1 xs = Inr t'"
    by (auto split: sum.splits)
  with Cons.IH show ?case by (blast intro: embeddedTree_trans addItem_embedded)
qed

lemma forEach_uniqueTree: "uniqueTree t \<Longrightarrow> forEach t xs = Inr t' \<Longrightarrow> uniqueTree t'"
proof (induction xs arbitrary: t)
  case Nil
  then show ?case by simp
next
  case (Cons x xs)
  then obtain t1 where "addItem t x = Inr t1" "forEach t1 xs = Inr t'"
    by (auto split: sum.splits)
  with Cons show ?case by (blast intro: addItem_uniqueTree)
qed

lemma forEach_repeat:
  assumes "forEach t (u # ys) = Inr t'"
  shows "addItem t' u = Inr t'"
proof -
  from assms obtain t1 where t1: "addItem t u = Inr t1" "forEach t1 ys = Inr t'"
    by (auto split: sum.splits)
  from t1(1) have "addItem t1 u = Inr t1" by (rule addItem_idem)
  moreover from t1(2) have "embeddedTree t1 t'" by (rule forEach_embedded)
  ultimately show ?thesis by (rule addItem_noop_embedded)
qed

subsection \<open>Order of first appearance\<close>

lemma findIndex_upt:
  "findIndex P [0..<m] = Some a \<longleftrightarrow> a < m \<and> P a \<and> (\<forall>b<a. \<not> P b)"
proof
  assume "findIndex P [0..<m] = Some a"
  from findIndex_Some[OF this] show "a < m \<and> P a \<and> (\<forall>b<a. \<not> P b)"
    by auto
next
  assume r: "a < m \<and> P a \<and> (\<forall>b<a. \<not> P b)"
  then have "findIndex P [0..<m] \<noteq> None"
    by (auto simp: findIndex_None)
  then obtain c where c: "findIndex P [0..<m] = Some c" by auto
  from findIndex_Some[OF c] have "c < m" "P c" "\<forall>b<c. \<not> P b" by auto
  with r have "c = a" by (metis linorder_neqE_nat)
  with c show "findIndex P [0..<m] = Some a" by simp
qed

lemma least_index:
  assumes "P (m::nat)"
  shows "\<exists>a. a \<le> m \<and> P a \<and> (\<forall>b<a. \<not> P b)"
proof -
  have "P (LEAST n. P n)" using assms by (rule LeastI)
  moreover have "(LEAST n. P n) \<le> m" using assms by (rule Least_le)
  moreover have "\<forall>b<LEAST n. P n. \<not> P b" using not_less_Least by blast
  ultimately show ?thesis by blast
qed

lemma growth_order:
  fixes K :: "nat \<Rightarrow> 'a list"
  assumes zero: "K 0 = []"
    and step: "\<And>n. n < N \<Longrightarrow> \<exists>extra. K (Suc n) = K n @ extra \<and> length extra \<le> 1"
    and dist: "distinct (K N)"
    and ij: "i < j" "j < length (K N)"
  shows "\<exists>a b. findIndex (\<lambda>n. K N ! i \<in> set (K n)) [0..<Suc N] = Some a
             \<and> findIndex (\<lambda>n. K N ! j \<in> set (K n)) [0..<Suc N] = Some b \<and> a < b"
proof -
  have prefix: "n \<le> N \<Longrightarrow> K n = take (length (K n)) (K N) \<and> length (K n) \<le> length (K N)" for n
  proof (induction "N - n" arbitrary: n)
    case 0
    then show ?case by simp
  next
    case (Suc d)
    then have n: "n < N" and d: "d = N - Suc n" and le: "Suc n \<le> N" by auto
    from Suc.hyps(1)[OF d le] have
      IH: "K (Suc n) = take (length (K (Suc n))) (K N)" "length (K (Suc n)) \<le> length (K N)"
      by simp_all
    from step[OF n] obtain extra where e: "K (Suc n) = K n @ extra" by blast
    then have "length (K n) \<le> length (K (Suc n))" by simp
    moreover from e have "K n = take (length (K n)) (K (Suc n))" by simp
    ultimately have "K n = take (length (K n)) (take (length (K (Suc n))) (K N))"
      and "length (K n) \<le> length (K N)"
      using IH by simp_all
    then show ?case by (simp add: min_def split: if_splits)
  qed
  have mem: "K N ! k \<in> set (K n) \<longleftrightarrow> k < length (K n)" if "n \<le> N" "k < length (K N)" for n k
  proof -
    from prefix[OF that(1)] have p: "K n = take (length (K n)) (K N)"
      and l: "length (K n) \<le> length (K N)" by simp_all
    show ?thesis
    proof
      assume "K N ! k \<in> set (K n)"
      then obtain q where q: "q < length (K n)" "K n ! q = K N ! k"
        by (auto simp: in_set_conv_nth)
      from p q(1) have "K n ! q = K N ! q" by (metis nth_take)
      with q have "K N ! q = K N ! k" by simp
      moreover from q(1) l have "q < length (K N)" by simp
      ultimately have "q = k"
        using nth_eq_iff_index_eq[OF dist, of q k] that(2) by simp
      with q(1) show "k < length (K n)" by simp
    next
      assume k: "k < length (K n)"
      with p have "K n ! k = K N ! k" by (metis nth_take)
      with k show "K N ! k \<in> set (K n)" by (metis nth_mem)
    qed
  qed
  let ?P = "\<lambda>k n. K N ! k \<in> set (K n)"
  from ij have i: "i < length (K N)" by simp
  from mem[OF le_refl i] i have "?P i N" by simp
  from least_index[of "?P i", OF this] obtain a where
    a: "a \<le> N" "?P i a" "\<forall>c<a. \<not> ?P i c" by blast
  from mem[OF le_refl ij(2)] ij(2) have "?P j N" by simp
  from least_index[of "?P j", OF this] obtain b where
    b: "b \<le> N" "?P j b" "\<forall>c<b. \<not> ?P j c" by blast
  have "b \<noteq> 0"
  proof
    assume "b = 0"
    with b(2) zero show False by simp
  qed
  then obtain b' where b': "b = Suc b'" by (cases b) auto
  with b(1) have b'N: "b' < N" by simp
  from b(3) b' have "\<not> ?P j b'" by simp
  with mem[of b' j] b'N ij(2) have lb': "length (K b') \<le> j" by simp
  from mem[of b j] b(1,2) ij(2) have lb: "j < length (K b)" by simp
  from step[OF b'N] b' obtain extra where "K b = K b' @ extra" "length extra \<le> 1" by auto
  with lb lb' have "length (K b') = j" by simp
  with ij(1) mem[of b' i] b'N i have "?P i b'" by simp
  with a(3) have "\<not> b' < a" by blast
  with b' have "a < b" by simp
  moreover from a have "findIndex (?P i) [0..<Suc N] = Some a"
    by (subst findIndex_upt) simp
  moreover from b have "findIndex (?P j) [0..<Suc N] = Some b"
    by (subst findIndex_upt) simp
  ultimately show ?thesis by blast
qed


lemma uniqueKeys_subdir: "uniqueKeys es \<Longrightarrow> subdir name es = Some sub \<Longrightarrow> uniqueKeys sub"
proof (induction name es rule: subdir.induct)
  case (1 name)
  then show ?case by simp
next
  case (2 name f es)
  then show ?case by (simp add: uniqueKeys_def)
next
  case (3 name name' sub0 es)
  then show ?case by (auto simp: uniqueKeys_def split: if_splits)
qed

lemma uniqueKeys_childrenAt:
  "uniqueKeys es \<Longrightarrow> childrenAt path es = Some c \<Longrightarrow> uniqueKeys c"
proof (induction path arbitrary: es)
  case Nil
  then show ?case by simp
next
  case (Cons name path)
  then show ?case by (auto split: option.splits dest: uniqueKeys_subdir)
qed

lemma uniqueTree_entriesAt:
  "uniqueTree t \<Longrightarrow> entriesAt t host path = Some es \<Longrightarrow> distinct (map entryKey es)"
proof -
  assume u: "uniqueTree t" and e: "entriesAt t host path = Some es"
  from e obtain es0 where m: "map_of t host = Some es0" and c: "childrenAt path es0 = Some es"
    by (auto simp: entriesAt_def split: option.splits)
  from u m have "uniqueKeys es0" by (rule uniqueTree_map_of)
  from this c have "uniqueKeys es" by (rule uniqueKeys_childrenAt)
  then show ?thesis by (simp add: uniqueKeys_def)
qed

lemma forEach_prefix:
  "forEach t (xs @ ys) = Inr t' \<Longrightarrow> \<exists>t0. forEach t xs = Inr t0 \<and> forEach t0 ys = Inr t'"
  by (auto simp: forEach_append split: sum.splits)


lemma firstSeen_example:
  "firstSeen
     [\<lparr>fileUrl = ''https://ex.com/docs/readme.txt''\<rparr>,
      \<lparr>fileUrl = ''https://ex.com/docs/''\<rparr>,
      \<lparr>fileUrl = ''https://ex.com/img.png''\<rparr>] ''ex.com'' [] (True, ''docs'') = Some 1
   \<and> firstSeen
     [\<lparr>fileUrl = ''https://ex.com/docs/readme.txt''\<rparr>,
      \<lparr>fileUrl = ''https://ex.com/docs/''\<rparr>,
      \<lparr>fileUrl = ''https://ex.com/img.png''\<rparr>] ''ex.com'' [] (False, ''img.png'') = Some 3"
  by (simp add: firstSeen_def present_def entriesAt_def eval_defs upt_rec)

lemma single_item:
  assumes "parts it = Inr (host # ps)" "host \<notin> set objectPrototypeKeys"
  shows "transformToTree [it] = Inr [(host, spine (isDirectoryUrl it) ps)]"
  using assms by (simp add: transformToTree_def addItem_def insertParts_def walk_Nil_spine)

lemma forEach_aborts:
  "it \<in> set items \<Longrightarrow> parts it = Inl e \<Longrightarrow> \<exists>e'. forEach t items = Inl e'"
proof (induction items arbitrary: t)
  case Nil
  then show ?case by simp
next
  case (Cons x items)
  show ?case
  proof (cases "addItem t x")
    case (Inl e')
    then show ?thesis by simp
  next
    case (Inr t')
    with Cons.prems have "x \<noteq> it" by (auto simp: addItem_def)
    with Cons.prems have "it \<in> set items" by simp
    from Cons.IH[OF this Cons.prems(2)] Inr show ?thesis by simp
  qed
qed

section \<open>The claims\<close>

text \<open>
  C1. The items \<^verbatim>\<open>https://ex.com/docs/readme.txt\<close>, \<^verbatim>\<open>https://ex.com/docs/\<close> and
  \<^verbatim>\<open>https://ex.com/img.png\<close>, in this order, give the tree
  \<^verbatim>\<open>{"ex.com": [{"docs": ["readme.txt"]}, "img.png"]}\<close>: the directory \<open>docs\<close>, seen first, stands
  before the file \<open>img.png\<close>.
\<close>

theorem C1_example:
  "transformToTree
     [\<lparr>fileUrl = ''https://ex.com/docs/readme.txt''\<rparr>,
      \<lparr>fileUrl = ''https://ex.com/docs/''\<rparr>,
      \<lparr>fileUrl = ''https://ex.com/img.png''\<rparr>]
   = Inr [(''ex.com'', [Dir ''docs'' [File ''readme.txt''], File ''img.png''])]"
  by (simp add: eval_defs)

theorem C1_witness:
  "map_option (map entryKey)
     (case transformToTree
        [\<lparr>fileUrl = ''https://ex.com/docs/readme.txt''\<rparr>,
         \<lparr>fileUrl = ''https://ex.com/docs/''\<rparr>,
         \<lparr>fileUrl = ''https://ex.com/img.png''\<rparr>] of
        Inl e \<Rightarrow> None
      | Inr t \<Rightarrow> entriesAt t ''ex.com'' [])
   = Some [(True, ''docs''), (False, ''img.png'')]"
  using C1_example by (simp add: entriesAt_def)

text \<open>
  C2. A list of items in which an item occurs a second time gives the same result as the list
  without that second occurrence: the same tree, or the same exception.
\<close>

theorem C2_idem:
  "transformToTree (xs @ [u] @ ys @ [u] @ zs) = transformToTree (xs @ [u] @ ys @ zs)"
proof (cases "forEach [] xs")
  case (Inl e)
  then show ?thesis by (simp add: transformToTree_def forEach_append)
next
  case (Inr t)
  show ?thesis
  proof (cases "forEach t (u # ys)")
    case (Inl e)
    have "forEach t ((u # ys) @ rest) = Inl e" for rest
      using Inl by (simp only: forEach_append sum.case)
    from this[of "u # zs"] this[of zs] Inr show ?thesis
      by (simp add: transformToTree_def forEach_append)
  next
    case r: (Inr t')
    from r have "addItem t' u = Inr t'" by (rule forEach_repeat)
    then have "forEach t' (u # zs) = forEach t' zs" by simp
    moreover have "forEach t ((u # ys) @ rest) = forEach t' rest" for rest
      using r by (simp only: forEach_append sum.case)
    from this[of "u # zs"] this[of zs]
    have "forEach t (u # ys @ u # zs) = forEach t' (u # zs)"
      "forEach t (u # ys @ zs) = forEach t' zs" by simp_all
    ultimately show ?thesis using Inr
      by (simp add: transformToTree_def forEach_append)
  qed
qed


theorem C2_witness:
  "transformToTree
     ([] @ [\<lparr>fileUrl = ''https://h/a/x''\<rparr>] @ [\<lparr>fileUrl = ''https://h/b''\<rparr>]
        @ [\<lparr>fileUrl = ''https://h/a/x''\<rparr>] @ [])
   = Inr [(''h'', [Dir ''a'' [File ''x''], File ''b''])]"
proof -
  have "transformToTree
     ([] @ [\<lparr>fileUrl = ''https://h/a/x''\<rparr>] @ [\<lparr>fileUrl = ''https://h/b''\<rparr>] @ [])
     = Inr [(''h'', [Dir ''a'' [File ''x''], File ''b''])]"
    by (simp add: eval_defs)
  with C2_idem[of "[]" "\<lparr>fileUrl = ''https://h/a/x''\<rparr>" "[\<lparr>fileUrl = ''https://h/b''\<rparr>]" "[]"]
  show ?thesis by simp
qed

text \<open>
  C3. The single item \<^verbatim>\<open>https://h/a/b\<close> gives the file \<open>b\<close> in the directory \<open>a\<close> of the host
  \<open>h\<close>, and \<^verbatim>\<open>https://h/a/b/\<close> gives the empty directory \<open>b\<close> there. In general the tree of one
  item is the chain of its parts, and the last part is a directory exactly when the
  \<^verbatim>\<open>fileUrl\<close> as given, before any encoding or decoding, ends with a slash. (A host name that
  is a key of \<^verbatim>\<open>Object.prototype\<close> is set aside: the root object gets no key for it.)
\<close>

theorem C3_directory_or_file:
  "transformToTree [\<lparr>fileUrl = ''https://h/a/b''\<rparr>] = Inr [(''h'', [Dir ''a'' [File ''b'']])]
   \<and> transformToTree [\<lparr>fileUrl = ''https://h/a/b/''\<rparr>] = Inr [(''h'', [Dir ''a'' [Dir ''b'' []]])]
   \<and> (parts it = Inr (host # ps) \<and> host \<notin> set objectPrototypeKeys \<longrightarrow>
        transformToTree [it] = Inr [(host, spine (endsWith (fileUrl it) ''/'') ps)])"
proof (intro conjI impI)
  show "transformToTree [\<lparr>fileUrl = ''https://h/a/b''\<rparr>] = Inr [(''h'', [Dir ''a'' [File ''b'']])]"
    by (simp add: eval_defs)
  show "transformToTree [\<lparr>fileUrl = ''https://h/a/b/''\<rparr>] = Inr [(''h'', [Dir ''a'' [Dir ''b'' []]])]"
    by (simp add: eval_defs)
  assume "parts it = Inr (host # ps) \<and> host \<notin> set objectPrototypeKeys"
  then have "transformToTree [it] = Inr [(host, spine (isDirectoryUrl it) ps)]"
    by (simp add: single_item)
  then show "transformToTree [it] = Inr [(host, spine (endsWith (fileUrl it) ''/'') ps)]"
    by (simp add: isDirectoryUrl_def)
qed

theorem C3_witness:
  "parts \<lparr>fileUrl = ''https://h/a/b/''\<rparr> = Inr [''h'', ''a'', ''b'']
   \<and> ''h'' \<notin> set objectPrototypeKeys
   \<and> endsWith ''https://h/a/b/'' ''/''
   \<and> transformToTree [\<lparr>fileUrl = ''https://h/a/b/''\<rparr>] = Inr [(''h'', spine True [''a'', ''b''])]"
proof -
  have p: "parts \<lparr>fileUrl = ''https://h/a/b/''\<rparr> = Inr [''h'', ''a'', ''b'']"
    by (simp add: eval_defs)
  have h: "''h'' \<notin> set objectPrototypeKeys"
    by (simp add: objectPrototypeKeys_def)
  have e: "endsWith ''https://h/a/b/'' ''/''"
    by (simp add: endsWith_def)
  from C3_directory_or_file[of "\<lparr>fileUrl = ''https://h/a/b/''\<rparr>" "''h''" "[''a'', ''b'']"] p h e
  have "transformToTree [\<lparr>fileUrl = ''https://h/a/b/''\<rparr>] = Inr [(''h'', spine True [''a'', ''b''])]"
    by simp
  with p h e show ?thesis by simp
qed

text \<open>
  C4. For the item \<^verbatim>\<open>https://h/a%20b/c\<close> the claim expects the directory name \<^verbatim>\<open>a b\<close>. The
  program gives \<^verbatim>\<open>a%20b\<close>: \<open>encodeURI\<close> escapes the percent sign of an input that is encoded
  already, the URL has the path \<^verbatim>\<open>/a%2520b/c\<close>, and decoding the segment gives back \<^verbatim>\<open>a%20b\<close>.
\<close>

theorem C4_percent_sign:
  "encodeURI ''https://h/a%20b/c'' = ''https://h/a%2520b/c''
   \<and> parseURL ''https://h/a%2520b/c'' = Some \<lparr>hostname = ''h'', pathname = ''/a%2520b/c''\<rparr>
   \<and> parts \<lparr>fileUrl = ''https://h/a%20b/c''\<rparr> = Inr [''h'', ''a%20b'', ''c'']
   \<and> transformToTree [\<lparr>fileUrl = ''https://h/a%20b/c''\<rparr>] = Inr [(''h'', [Dir ''a%20b'' [File ''c'']])]"
  by (simp add: eval_defs)

theorem C4_witness:
  "parts \<lparr>fileUrl = ''https://h/a%20b/c''\<rparr> \<noteq> Inr [''h'', ''a b'', ''c'']"
  using C4_percent_sign by simp

text \<open>
  C5. Two entries of one directory stand in the order in which they were first seen: of the
  entries at the positions \<open>i < j\<close> of a directory of the tree, the one at \<open>i\<close> is there after
  fewer items than the one at \<open>j\<close>.
\<close>

theorem C5_first_seen_order:
  assumes "transformToTree items = Inr t" "entriesAt t host path = Some es" "i < j" "j < length es"
  shows "\<exists>a b. firstSeen items host path (entryKey (es ! i)) = Some a
             \<and> firstSeen items host path (entryKey (es ! j)) = Some b \<and> a < b"
proof -
  define K where "K n = (case transformToTree (take n items) of
                           Inl e \<Rightarrow> [] | Inr t' \<Rightarrow> keysAtTree t' host path)" for n
  have pres: "present (take n items) host path key = (key \<in> set (K n))" for n key
    by (simp add: K_def present_def keysAtTree_def split: sum.splits option.splits)
  have zero: "K 0 = []"
    by (simp add: K_def transformToTree_def keysAtTree_def entriesAt_def)
  have step: "\<exists>extra. K (Suc n) = K n @ extra \<and> length extra \<le> 1" if n: "n < length items" for n
  proof -
    from n have split: "items = (take n items @ [items ! n]) @ drop (Suc n) items"
      by (metis append_take_drop_id take_Suc_conv_app_nth)
    from assms(1) have "forEach [] ((take n items @ [items ! n]) @ drop (Suc n) items) = Inr t"
      unfolding transformToTree_def using split by simp
    from forEach_prefix[OF this] obtain t2 where
      t2: "forEach [] (take n items @ [items ! n]) = Inr t2" by blast
    from forEach_prefix[OF t2] obtain t1 where
      t1: "forEach [] (take n items) = Inr t1" "forEach t1 [items ! n] = Inr t2" by blast
    from t1(2) have "addItem t1 (items ! n) = Inr t2" by (simp split: sum.splits)
    from addItem_keysAtTree[OF this, of host path] obtain extra where
      "keysAtTree t2 host path = keysAtTree t1 host path @ extra" "length extra \<le> 1" by blast
    moreover from n t2 have "K (Suc n) = keysAtTree t2 host path"
      by (simp add: K_def transformToTree_def take_Suc_conv_app_nth)
    moreover from t1(1) have "K n = keysAtTree t1 host path"
      by (simp add: K_def transformToTree_def)
    ultimately show ?thesis by simp
  qed
  from assms(1,2) have last: "K (length items) = map entryKey es"
    by (simp add: K_def keysAtTree_def)
  from assms(1) have "uniqueTree t"
    unfolding transformToTree_def
    by (rule forEach_uniqueTree[of "[]", rotated]) (simp add: uniqueTree_def)
  from this assms(2) have "distinct (map entryKey es)" by (rule uniqueTree_entriesAt)
  with last have dist: "distinct (K (length items))" by simp
  from assms(4) last have j: "j < length (K (length items))" by simp
  from growth_order[of K "length items", OF zero step dist assms(3) j]
  obtain a b where
    "findIndex (\<lambda>n. K (length items) ! i \<in> set (K n)) [0..<Suc (length items)] = Some a"
    "findIndex (\<lambda>n. K (length items) ! j \<in> set (K n)) [0..<Suc (length items)] = Some b"
    "a < b" by blast
  moreover from assms(3,4) last have "K (length items) ! i = entryKey (es ! i)"
    "K (length items) ! j = entryKey (es ! j)" by simp_all
  ultimately show ?thesis
    by (auto simp: firstSeen_def pres)
qed

theorem C5_witness:
  "transformToTree
     [\<lparr>fileUrl = ''https://ex.com/docs/readme.txt''\<rparr>,
      \<lparr>fileUrl = ''https://ex.com/docs/''\<rparr>,
      \<lparr>fileUrl = ''https://ex.com/img.png''\<rparr>]
     = Inr [(''ex.com'', [Dir ''docs'' [File ''readme.txt''], File ''img.png''])]
   \<and> entriesAt [(''ex.com'', [Dir ''docs'' [File ''readme.txt''], File ''img.png''])] ''ex.com'' []
       = Some [Dir ''docs'' [File ''readme.txt''], File ''img.png'']
   \<and> (\<exists>a b. firstSeen
              [\<lparr>fileUrl = ''https://ex.com/docs/readme.txt''\<rparr>,
               \<lparr>fileUrl = ''https://ex.com/docs/''\<rparr>,
               \<lparr>fileUrl = ''https://ex.com/img.png''\<rparr>] ''ex.com'' [] (True, ''docs'') = Some a
            \<and> firstSeen
              [\<lparr>fileUrl = ''https://ex.com/docs/readme.txt''\<rparr>,
               \<lparr>fileUrl = ''https://ex.com/docs/''\<rparr>,
               \<lparr>fileUrl = ''https://ex.com/img.png''\<rparr>] ''ex.com'' [] (False, ''img.png'') = Some b
            \<and> a < b)"
proof -
  let ?items = "[\<lparr>fileUrl = ''https://ex.com/docs/readme.txt''\<rparr>,
      \<lparr>fileUrl = ''https://ex.com/docs/''\<rparr>,
      \<lparr>fileUrl = ''https://ex.com/img.png''\<rparr>]"
  let ?es = "[Dir ''docs'' [File ''readme.txt''], File ''img.png'']"
  have h: "transformToTree ?items = Inr [(''ex.com'', ?es)]"
    by (simp add: eval_defs)
  have e: "entriesAt [(''ex.com'', ?es)] ''ex.com'' [] = Some ?es"
    by (simp add: entriesAt_def)
  from C5_first_seen_order[OF h e, of 0 1] h e show ?thesis
    by simp
qed

text \<open>
  C6, as the program has it. In every directory of the tree that \<open>transformToTree\<close> returns, and
  under every host, no two files have the same name and no two subdirectories have the same
  name. Nothing is said of a file and a subdirectory that share a name.
\<close>

theorem C6_unique: "transformToTree items = Inr t \<Longrightarrow> uniqueTree t"
  unfolding transformToTree_def
  by (rule forEach_uniqueTree[of "[]"]) (simp_all add: uniqueTree_def)

theorem C6_witness:
  "transformToTree [\<lparr>fileUrl = ''https://h/foo''\<rparr>, \<lparr>fileUrl = ''https://h/foo/''\<rparr>]
     = Inr [(''h'', [File ''foo'', Dir ''foo'' []])]
   \<and> uniqueTree [(''h'', [File ''foo'', Dir ''foo'' []])]"
proof -
  have h: "transformToTree [\<lparr>fileUrl = ''https://h/foo''\<rparr>, \<lparr>fileUrl = ''https://h/foo/''\<rparr>]
     = Inr [(''h'', [File ''foo'', Dir ''foo'' []])]"
    by (simp add: eval_defs)
  from C6_unique[OF h] h show ?thesis by simp
qed

text \<open>
  C6 as the specification states it, that no two entries of a directory have the same name, fails
  for \<^verbatim>\<open>https://h/foo\<close> followed by \<^verbatim>\<open>https://h/foo/\<close>: the search for a file looks at strings
  only, and here the second entry is added.
\<close>

theorem C6_counterexample:
  "transformToTree [\<lparr>fileUrl = ''https://h/foo''\<rparr>, \<lparr>fileUrl = ''https://h/foo/''\<rparr>]
     = Inr [(''h'', [File ''foo'', Dir ''foo'' []])]
   \<and> \<not> distinct (map entryName [File ''foo'', Dir ''foo'' []])"
  by (simp add: eval_defs entryName_def)

text \<open>
  C7. The claim expects an exception only when the \<^verbatim>\<open>fileUrl\<close> of an item is no URL, and a tree
  with all items otherwise. (One half holds, see \<open>forEach_aborts\<close>: such an item ends the
  loop.) The program looks a directory up with \<^verbatim>\<open>entry[part]\<close>, which also finds the properties
  every object inherits: for the part \<^verbatim>\<open>constructor\<close> it takes the first directory there is
  for the one it looks for, and the next step calls \<^verbatim>\<open>.find\<close> on a function. Both items below
  are URLs; the first pair ends in a \<^verbatim>\<open>TypeError\<close>, and the second returns a tree without the
  directory \<^verbatim>\<open>toString\<close>.
\<close>

theorem C7_not_a_function:
  "parts \<lparr>fileUrl = ''https://h/a/x''\<rparr> = Inr [''h'', ''a'', ''x'']
   \<and> parts \<lparr>fileUrl = ''https://h/constructor/y''\<rparr> = Inr [''h'', ''constructor'', ''y'']
   \<and> transformToTree [\<lparr>fileUrl = ''https://h/a/x''\<rparr>, \<lparr>fileUrl = ''https://h/constructor/y''\<rparr>]
       = Inl NotAFunction
   \<and> transformToTree [\<lparr>fileUrl = ''https://h/a/x''\<rparr>, \<lparr>fileUrl = ''https://h/toString/''\<rparr>]
       = Inr [(''h'', [Dir ''a'' [File ''x'']])]"
  by (simp add: eval_defs)

theorem C7_witness:
  "transformToTree [\<lparr>fileUrl = ''https://h/a/x''\<rparr>, \<lparr>fileUrl = ''https://h/constructor/y''\<rparr>]
     \<noteq> Inr [(''h'', [Dir ''a'' [File ''x''], Dir ''constructor'' [File ''y'']])]"
  using C7_not_a_function by simp

text \<open>
  C8. A request that finds a cache entry younger than \<open>CACHE_DURATION_MS\<close> is answered with the
  tree of the entry, and the state, with the count of upstream calls, stays as it is. A request
  that finds no entry, or one of that age or older, calls the upstream once; when that gives
  a tree, it is the answer and the new entry, stamped with the clock as read then.
\<close>

theorem C8_freshness:
  "(cache s = Some c \<and> now - timestamp c < CACHE_DURATION_MS \<longrightarrow>
      getApiFiles now upstream now' s = (Json (tree c), s))
   \<and> (cache s = None \<or> (cache s = Some c \<and> CACHE_DURATION_MS \<le> now - timestamp c) \<longrightarrow>
        upstreamCalls (snd (getApiFiles now upstream now' s)) = upstreamCalls s + 1
        \<and> (fst (fetchDataAndTransform upstream s) = Inr data \<longrightarrow>
             getApiFiles now upstream now' s =
               (Json data, s\<lparr>cache := Some \<lparr>tree = data, timestamp = now'\<rparr>,
                              upstreamCalls := upstreamCalls s + 1\<rparr>)))"
  by (auto simp: getApiFiles_def fetchNewData_def fetchDataAndTransform_def
           split: sum.splits option.splits)

theorem C8_witness:
  "CACHE_DURATION_MS = 60000
   \<and> getApiFiles 60999 (Inr []) 61005 \<lparr>cache = Some \<lparr>tree = [(''h'', [])], timestamp = 1000\<rparr>, upstreamCalls = 1\<rparr>
       = (Json [(''h'', [])], \<lparr>cache = Some \<lparr>tree = [(''h'', [])], timestamp = 1000\<rparr>, upstreamCalls = 1\<rparr>)
   \<and> getApiFiles 61000 (Inr []) 61005 \<lparr>cache = Some \<lparr>tree = [(''h'', [])], timestamp = 1000\<rparr>, upstreamCalls = 1\<rparr>
       = (Json [], \<lparr>cache = Some \<lparr>tree = [], timestamp = 61005\<rparr>, upstreamCalls = 2\<rparr>)
   \<and> getApiFiles 5 (Inr []) 7 \<lparr>cache = None, upstreamCalls = 0\<rparr>
       = (Json [], \<lparr>cache = Some \<lparr>tree = [], timestamp = 7\<rparr>, upstreamCalls = 1\<rparr>)"
proof -
  let ?c = "\<lparr>tree = [(''h'', [])], timestamp = 1000\<rparr>"
  let ?s = "\<lparr>cache = Some ?c, upstreamCalls = 1\<rparr>"
  let ?empty = "\<lparr>cache = None, upstreamCalls = 0\<rparr>"
  have f: "fst (fetchDataAndTransform (Inr []) s) = Inr []" for s
    by (simp add: fetchDataAndTransform_def transformToTree_def)
  have ttl: "CACHE_DURATION_MS = 60000" by (simp add: CACHE_DURATION_MS_def)
  from C8_freshness[of ?s ?c 60999 "Inr []" 61005 "[]"] ttl
  have 1: "getApiFiles 60999 (Inr []) 61005 ?s = (Json [(''h'', [])], ?s)" by simp
  from C8_freshness[of ?s ?c 61000 "Inr []" 61005 "[]"] ttl f
  have 2: "getApiFiles 61000 (Inr []) 61005 ?s
       = (Json [], \<lparr>cache = Some \<lparr>tree = [], timestamp = 61005\<rparr>, upstreamCalls = 2\<rparr>)" by simp
  from C8_freshness[of ?empty ?c 5 "Inr []" 7 "[]"] f
  have 3: "getApiFiles 5 (Inr []) 7 ?empty
       = (Json [], \<lparr>cache = Some \<lparr>tree = [], timestamp = 7\<rparr>, upstreamCalls = 1\<rparr>)" by simp
  from ttl 1 2 3 show ?thesis by simp
qed

text \<open>
  C9. When fetching and building fails, \<open>updateCache\<close> leaves the cache entry as it was, and so
  does the handler, which answers with the error: 504 Gateway Timeout for an upstream status
  504, 502 Bad Gateway for an upstream status 502 and for a request without response, 500 for
  everything else.
\<close>

theorem C9_failure:
  "(fst (fetchDataAndTransform upstream s) = Inl err \<longrightarrow>
      cache (updateCache now upstream s) = cache s
      \<and> (cache s = None \<or> (cache s = Some c \<and> CACHE_DURATION_MS \<le> now - timestamp c) \<longrightarrow>
           getApiFiles now upstream now' s =
             (errorReply err, s\<lparr>upstreamCalls := upstreamCalls s + 1\<rparr>)))
   \<and> errorReply (AxiosError (Some 504) req) = Failure 504 ''Gateway Timeout''
   \<and> errorReply (AxiosError (Some 502) req) = Failure 502 ''Bad Gateway''
   \<and> errorReply (AxiosError None True) = Failure 502 ''Bad Gateway''
   \<and> (status \<noteq> 504 \<and> status \<noteq> 502 \<longrightarrow>
        errorReply (AxiosError (Some status) req) = Failure 500 ''Failed to fetch data'')
   \<and> errorReply (AxiosError None False) = Failure 500 ''Failed to fetch data''
   \<and> errorReply (JsError e) = Failure 500 ''Failed to fetch data''"
  by (auto simp: getApiFiles_def fetchNewData_def fetchDataAndTransform_def updateCache_def
           errorReply_def split: sum.splits option.splits)

theorem C9_witness:
  "fst (fetchDataAndTransform (Inl (AxiosError (Some 504) True))
          \<lparr>cache = Some \<lparr>tree = [(''h'', [])], timestamp = 1000\<rparr>, upstreamCalls = 1\<rparr>)
     = Inl (AxiosError (Some 504) True)
   \<and> cache (updateCache 61000 (Inl (AxiosError (Some 504) True))
        \<lparr>cache = Some \<lparr>tree = [(''h'', [])], timestamp = 1000\<rparr>, upstreamCalls = 1\<rparr>)
       = Some \<lparr>tree = [(''h'', [])], timestamp = 1000\<rparr>
   \<and> getApiFiles 61000 (Inl (AxiosError (Some 504) True)) 61005
        \<lparr>cache = Some \<lparr>tree = [(''h'', [])], timestamp = 1000\<rparr>, upstreamCalls = 1\<rparr>
       = (Failure 504 ''Gateway Timeout'',
          \<lparr>cache = Some \<lparr>tree = [(''h'', [])], timestamp = 1000\<rparr>, upstreamCalls = 2\<rparr>)
   \<and> errorReply (AxiosError (Some 503) True) = Failure 500 ''Failed to fetch data''"
proof -
  let ?c = "\<lparr>tree = [(''h'', [])], timestamp = 1000\<rparr>"
  let ?s = "\<lparr>cache = Some ?c, upstreamCalls = 1\<rparr>"
  let ?e = "AxiosError (Some 504) True"
  have f: "fst (fetchDataAndTransform (Inl ?e) ?s) = Inl ?e"
    by (simp add: fetchDataAndTransform_def)
  have ttl: "CACHE_DURATION_MS = 60000" by (simp add: CACHE_DURATION_MS_def)
  from C9_failure[of "Inl ?e" ?s ?e 61000 ?c 61005 True 503] f ttl show ?thesis
    by simp
qed

text \<open>
  C10. The tree built from a prefix of the items is embedded in the tree built from all of them:
  every array of the former is an initial part of the array of the latter, entry by entry, and
  the same holds inside each directory.
\<close>

theorem C10_embedded:
  "transformToTree (xs @ ys) = Inr t \<Longrightarrow>
   \<exists>t0. transformToTree xs = Inr t0 \<and> embeddedTree t0 t"
  by (auto simp: transformToTree_def forEach_append split: sum.splits dest: forEach_embedded)

theorem C10_witness:
  "transformToTree ([\<lparr>fileUrl = ''https://h/a/x''\<rparr>] @ [\<lparr>fileUrl = ''https://h/a/y''\<rparr>, \<lparr>fileUrl = ''https://h/b''\<rparr>])
     = Inr [(''h'', [Dir ''a'' [File ''x'', File ''y''], File ''b''])]
   \<and> transformToTree [\<lparr>fileUrl = ''https://h/a/x''\<rparr>] = Inr [(''h'', [Dir ''a'' [File ''x'']])]
   \<and> embeddedTree [(''h'', [Dir ''a'' [File ''x'']])] [(''h'', [Dir ''a'' [File ''x'', File ''y''], File ''b''])]"
proof -
  have h: "transformToTree ([\<lparr>fileUrl = ''https://h/a/x''\<rparr>] @ [\<lparr>fileUrl = ''https://h/a/y''\<rparr>, \<lparr>fileUrl = ''https://h/b''\<rparr>])
     = Inr [(''h'', [Dir ''a'' [File ''x'', File ''y''], File ''b''])]"
    by (simp add: eval_defs)
  have p: "transformToTree [\<lparr>fileUrl = ''https://h/a/x''\<rparr>] = Inr [(''h'', [Dir ''a'' [File ''x'']])]"
    by (simp add: eval_defs)
  from C10_embedded[OF h] p h show ?thesis by simp
qed

end
